theory Spec2Isabelle
  imports Main "HOL-Library.Char_ord"
begin

section \<open>Texts and characters\<close>

text \<open>
  A text is a \<^typ>\<open>string\<close>: each \<^typ>\<open>char\<close> stands for one UTF-16 code unit of
  the JavaScript string, in the range 0..255. The analyzer compares characters with
  ASCII characters only, so iterating by code point (as \<^verbatim>\<open>for (const char of text)\<close>
  does) and iterating by code unit go through the same branches.
\<close>

definition bslash :: char where
  "bslash = CHR 0x5C"

definition dquote :: char where
  "dquote = CHR 0x22"

definition backtick :: char where
  "backtick = CHR 0x60"

text \<open>White space of \<^verbatim>\<open>\s\<close>, \<^verbatim>\<open>trim\<close> and \<^verbatim>\<open>trimEnd\<close>: tab, line feed,
  vertical tab, form feed, carriage return, space, no-break space.\<close>

definition isSpace :: "char \<Rightarrow> bool" where
  "isSpace c = (c \<in> set [CHR 0x09, CHR 0x0A, CHR 0x0B, CHR 0x0C, CHR 0x0D, CHR 0x20, CHR 0xA0])"

text \<open>\<^verbatim>\<open>\w\<close> is \<^verbatim>\<open>[A-Za-z0-9_]\<close>.\<close>

definition isWord :: "char \<Rightarrow> bool" where
  "isWord c = ((CHR ''A'' \<le> c \<and> c \<le> CHR ''Z'') \<or> (CHR ''a'' \<le> c \<and> c \<le> CHR ''z'')
     \<or> (CHR ''0'' \<le> c \<and> c \<le> CHR ''9'') \<or> c = CHR ''_'')"

definition trimEnd :: "string \<Rightarrow> string" where
  "trimEnd s = rev (dropWhile isSpace (rev s))"

definition trim :: "string \<Rightarrow> string" where
  "trim s = dropWhile isSpace (trimEnd s)"

text \<open>\<^verbatim>\<open>s.substring(a, b)\<close>: both indices are clamped to the length and swapped when
  \<^verbatim>\<open>a > b\<close>.\<close>

definition substring :: "string \<Rightarrow> nat \<Rightarrow> nat \<Rightarrow> string" where
  "substring s a b =
     (let a' = min a (length s); b' = min b (length s);
          lo = min a' b'; hi = max a' b'
      in take (hi - lo) (drop lo s))"

text \<open>\<^verbatim>\<open>text[i]\<close> is \<^verbatim>\<open>undefined\<close> out of range.\<close>

definition charAt :: "string \<Rightarrow> nat \<Rightarrow> char option" where
  "charAt s i = (if i < length s then Some (s ! i) else None)"

definition startsWith :: "string \<Rightarrow> string \<Rightarrow> bool" where
  "startsWith s p = (take (length p) s = p)"

section \<open>Regular expressions with JavaScript's backtracking order\<close>

datatype item = Ch char | Rng char char | Wd | Sp | NSp

fun inItem :: "item \<Rightarrow> char \<Rightarrow> bool" where
  "inItem (Ch a) c = (c = a)"
| "inItem (Rng a b) c = (a \<le> c \<and> c \<le> b)"
| "inItem Wd c = isWord c"
| "inItem Sp c = isSpace c"
| "inItem NSp c = (\<not> isSpace c)"

datatype re =
    Eps
  | Chr char
  | Dot
  | Set "item list"
  | NSet "item list"
  | Bol
  | Eol
  | Seq re re
  | Alt re re
  | Star re
  | Lazy re
  | Group nat re

text \<open>What one character-consuming atom accepts; \<^verbatim>\<open>.\<close> excludes the line
  terminators.\<close>

fun accepts :: "re \<Rightarrow> char \<Rightarrow> bool" where
  "accepts (Chr a) c = (c = a)"
| "accepts Dot c = (c \<noteq> CHR 0x0A \<and> c \<noteq> CHR 0x0D)"
| "accepts (Set is) c = (\<exists>i \<in> set is. inItem i c)"
| "accepts (NSet is) c = (\<not> (\<exists>i \<in> set is. inItem i c))"
| "accepts _ c = False"

type_synonym caps = "nat \<Rightarrow> string option"

text \<open>
  \<open>ms n r s c\<close>: all the ways in which \<open>r\<close> matches a prefix of the remaining input
  \<open>s\<close>, in the order in which a backtracking matcher tries them; each result is the
  input left over and the capture groups. \<open>n\<close> is the length of the whole input
  (\<^verbatim>\<open>^\<close> matches where nothing has been consumed). A quantifier gives up an
  iteration that consumes nothing.
\<close>

function ms :: "nat \<Rightarrow> re \<Rightarrow> string \<Rightarrow> caps \<Rightarrow> (string \<times> caps) list" where
  "ms n Eps s c = [(s, c)]"
| "ms n (Chr a) s c = (case s of [] \<Rightarrow> [] | x # xs \<Rightarrow> if accepts (Chr a) x then [(xs, c)] else [])"
| "ms n Dot s c = (case s of [] \<Rightarrow> [] | x # xs \<Rightarrow> if accepts Dot x then [(xs, c)] else [])"
| "ms n (Set is) s c = (case s of [] \<Rightarrow> [] | x # xs \<Rightarrow> if accepts (Set is) x then [(xs, c)] else [])"
| "ms n (NSet is) s c = (case s of [] \<Rightarrow> [] | x # xs \<Rightarrow> if accepts (NSet is) x then [(xs, c)] else [])"
| "ms n Bol s c = (if length s = n then [(s, c)] else [])"
| "ms n Eol s c = (if s = [] then [(s, c)] else [])"
| "ms n (Seq a b) s c = concat (map (\<lambda>(s1, c1). ms n b s1 c1) (ms n a s c))"
| "ms n (Alt a b) s c = ms n a s c @ ms n b s c"
| "ms n (Star a) s c =
     concat (map (\<lambda>(s1, c1). if length s1 < length s then ms n (Star a) s1 c1 else [])
                 (ms n a s c)) @ [(s, c)]"
| "ms n (Lazy a) s c =
     (s, c) # concat (map (\<lambda>(s1, c1). if length s1 < length s then ms n (Lazy a) s1 c1 else [])
                          (ms n a s c))"
| "ms n (Group k a) s c =
     map (\<lambda>(s1, c1). (s1, c1(k \<mapsto> take (length s - length s1) s))) (ms n a s c)"
  by pat_completeness auto
termination
  by (relation "measures [\<lambda>(n, r, s, c). size r, \<lambda>(n, r, s, c). length s]") auto

definition Opt :: "re \<Rightarrow> re" where
  "Opt r = Alt r Eps"

definition Plus :: "re \<Rightarrow> re" where
  "Plus r = Seq r (Star r)"

definition LazyPlus :: "re \<Rightarrow> re" where
  "LazyPlus r = Seq r (Lazy r)"

fun Cat :: "re list \<Rightarrow> re" where
  "Cat [] = Eps"
| "Cat (r # rs) = Seq r (Cat rs)"

definition Str :: "string \<Rightarrow> re" where
  "Str s = Cat (map Chr s)"

text \<open>The result of \<^verbatim>\<open>s.match(r)\<close> for a regular expression without the \<^verbatim>\<open>g\<close> flag:
  the leftmost start at which \<open>r\<close> matches, and there the first match in backtracking
  order. \<open>m_whole\<close> is element 0 of the result, \<open>m_groups m k\<close> element \<open>k\<close>
  (\<open>None\<close> for \<^verbatim>\<open>undefined\<close>).\<close>

record rmatch =
  m_index :: nat
  m_whole :: string
  m_groups :: caps

fun searchFrom :: "nat \<Rightarrow> re \<Rightarrow> nat \<Rightarrow> string \<Rightarrow> rmatch option" where
  "searchFrom n r i s =
     (case ms n r s Map.empty of
        (s', c) # _ \<Rightarrow> Some \<lparr>m_index = i, m_whole = take (length s - length s') s, m_groups = c\<rparr>
      | [] \<Rightarrow> (case s of [] \<Rightarrow> None | _ # t \<Rightarrow> searchFrom n r (Suc i) t))"

definition rmatch :: "re \<Rightarrow> string \<Rightarrow> rmatch option" where
  "rmatch r s = searchFrom (length s) r 0 s"


text \<open>\<^verbatim>\<open>s.split(/[;\n]/)\<close>, for a separator that is one character of a class: the
  pieces between the separators, empty pieces included.\<close>

fun split :: "(char \<Rightarrow> bool) \<Rightarrow> string \<Rightarrow> string list" where
  "split p [] = [ [] ]"
| "split p (x # xs) =
     (if p x then [] # split p xs
      else (case split p xs of y # ys \<Rightarrow> (x # y) # ys | [] \<Rightarrow> [ [x] ]))"

section \<open>Errors\<close>

text \<open>
  The two ways in which the analyzer could leave its types: \<open>TypeError\<close> is what
  JavaScript raises on a property access or method call on \<^verbatim>\<open>undefined\<close>
  (\<^verbatim>\<open>typeMatch[1].length\<close>, \<^verbatim>\<open>fieldMatch[2].trim()\<close>); \<open>NotAString\<close> marks a
  result whose \<^verbatim>\<open>string\<close> field would hold \<^verbatim>\<open>undefined\<close>.
\<close>

datatype error = TypeError | NotAString

section \<open>The data model (goAnalyzer.ts)\<close>

text \<open>\<^verbatim>\<open>FieldInfo\<close>: \<open>f_name\<close>, \<open>f_type\<close>, \<open>f_documentation\<close>, \<open>f_tag\<close> are the
  fields \<^verbatim>\<open>name\<close>, \<^verbatim>\<open>type\<close>, \<^verbatim>\<open>documentation\<close>, \<^verbatim>\<open>tag\<close>.\<close>

record FieldInfo =
  f_name :: string
  f_type :: string
  f_documentation :: "string option"
  f_tag :: "string option"

text \<open>\<^verbatim>\<open>StructInfo\<close>: \<open>s_name\<close>, \<open>s_fields\<close>, \<open>s_documentation\<close>.\<close>

record StructInfo =
  s_name :: string
  s_fields :: "FieldInfo list"
  s_documentation :: "string option"

text \<open>\<^verbatim>\<open>StructLiteralContext\<close>. \<open>typePosition\<close> holds the offset \<^verbatim>\<open>typeStartOffset\<close>
  that the source hands to the editor's \<^verbatim>\<open>document.positionAt\<close>.\<close>

record StructLiteralContext =
  typeName :: string
  typePosition :: nat
  activeFieldIndex :: nat

section \<open>countActiveFieldIndex\<close>

text \<open>The variables of the loop. \<open>prevChar\<close> is \<open>None\<close> for the initial \<^verbatim>\<open>''\<close>.\<close>

record counter =
  index :: nat
  braceDepth :: int
  parenDepth :: int
  bracketDepth :: int
  inDoubleQuote :: bool
  inBacktick :: bool
  prevChar :: "char option"

definition counter0 :: counter where
  "counter0 = \<lparr>index = 0, braceDepth = 0, parenDepth = 0, bracketDepth = 0,
     inDoubleQuote = False, inBacktick = False, prevChar = None\<rparr>"

text \<open>The branches of the loop body, before \<^verbatim>\<open>prevChar = char\<close>.\<close>

definition branch :: "counter \<Rightarrow> char \<Rightarrow> counter" where
  "branch st ch =
     (if ch = dquote \<and> \<not> inBacktick st \<and> prevChar st \<noteq> Some bslash
        then st\<lparr>inDoubleQuote := \<not> inDoubleQuote st\<rparr>
      else if ch = backtick \<and> \<not> inDoubleQuote st
        then st\<lparr>inBacktick := \<not> inBacktick st\<rparr>
      else if \<not> inDoubleQuote st \<and> \<not> inBacktick st then
        (if ch = CHR ''{'' then st\<lparr>braceDepth := braceDepth st + 1\<rparr>
         else if ch = CHR ''}'' then st\<lparr>braceDepth := braceDepth st - 1\<rparr>
         else if ch = CHR ''('' then st\<lparr>parenDepth := parenDepth st + 1\<rparr>
         else if ch = CHR '')'' then st\<lparr>parenDepth := parenDepth st - 1\<rparr>
         else if ch = CHR ''['' then st\<lparr>bracketDepth := bracketDepth st + 1\<rparr>
         else if ch = CHR '']'' then st\<lparr>bracketDepth := bracketDepth st - 1\<rparr>
         else if ch = CHR '','' \<and> braceDepth st = 0 \<and> parenDepth st = 0 \<and> bracketDepth st = 0
           then st\<lparr>index := index st + 1\<rparr>
         else st)
      else st)"

definition step :: "counter \<Rightarrow> char \<Rightarrow> counter" where
  "step st ch = (branch st ch)\<lparr>prevChar := Some ch\<rparr>"

definition scan :: "string \<Rightarrow> counter" where
  "scan text = foldl step counter0 text"

definition countActiveFieldIndex :: "string \<Rightarrow> nat" where
  "countActiveFieldIndex text = index (scan text)"

section \<open>findStructLiteralContext\<close>

text \<open>The backward loop \<^verbatim>\<open>for (let i = offset - 1; i >= 0; i--)\<close>: the second argument
  is \<open>i + 1\<close>, the third \<^verbatim>\<open>braceDepth\<close>; \<open>None\<close> is \<^verbatim>\<open>openBraceOffset === -1\<close>.\<close>

fun findOpenBrace :: "string \<Rightarrow> nat \<Rightarrow> int \<Rightarrow> nat option" where
  "findOpenBrace text 0 d = None"
| "findOpenBrace text (Suc i) d =
     (if charAt text i = Some (CHR ''}'') then findOpenBrace text i (d + 1)
      else if charAt text i = Some (CHR ''{'') then
        (if d = 0 then Some i else findOpenBrace text i (d - 1))
      else findOpenBrace text i d)"

text \<open>\<^verbatim>\<open>/(&?\s*)([A-Z_][a-zA-Z0-9_]*(?:\.[A-Z_][a-zA-Z0-9_]*)?)$/\<close>\<close>

definition identStart :: re where
  "identStart = Set [Rng (CHR ''A'') (CHR ''Z''), Ch (CHR ''_'')]"

definition identRest :: re where
  "identRest = Set [Rng (CHR ''a'') (CHR ''z''), Rng (CHR ''A'') (CHR ''Z''),
     Rng (CHR ''0'') (CHR ''9''), Ch (CHR ''_'')]"

definition prefixRe :: re where
  "prefixRe = Cat [Opt (Chr (CHR ''&'')), Star (Set [Sp])]"

definition nameRe :: re where
  "nameRe = Cat [identStart, Star identRest, Opt (Cat [Chr (CHR ''.''), identStart, Star identRest])]"

definition typeRe :: re where
  "typeRe = Cat [Group 1 prefixRe, Group 2 nameRe, Eol]"

definition findStructLiteralContext :: "string \<Rightarrow> nat \<Rightarrow> error + StructLiteralContext option" where
  "findStructLiteralContext text offset =
     (case findOpenBrace text offset 0 of
        None \<Rightarrow> Inr None
      | Some openBraceOffset \<Rightarrow>
          (let textBeforeBrace = trimEnd (substring text 0 openBraceOffset) in
           case rmatch typeRe textBeforeBrace of
             None \<Rightarrow> Inr None
           | Some typeMatch \<Rightarrow>
               (case m_groups typeMatch 2 of
                  None \<Rightarrow> Inl NotAString
                | Some tn \<Rightarrow>
                    (case m_groups typeMatch 1 of
                       None \<Rightarrow> Inl TypeError
                     | Some g1 \<Rightarrow>
                         Inr (Some \<lparr>typeName = tn,
                           typePosition = length textBeforeBrace - length (m_whole typeMatch) + length g1,
                           activeFieldIndex =
                             countActiveFieldIndex (substring text (openBraceOffset + 1) offset)\<rparr>)))))"

section \<open>parseFields\<close>

text \<open>\<^verbatim>\<open>/^(\w+)\s+([^`\/\n]+?)(?:\s+`([^`]*)`)?(?:\s*\/\/\s*(.*))?$/\<close>\<close>

definition fieldRe :: re where
  "fieldRe = Cat [Bol, Group 1 (Plus (Set [Wd])), Plus (Set [Sp]),
     Group 2 (LazyPlus (NSet [Ch backtick, Ch (CHR ''/''), Ch (CHR 0x0A)])),
     Opt (Cat [Plus (Set [Sp]), Chr backtick, Group 3 (Star (NSet [Ch backtick])), Chr backtick]),
     Opt (Cat [Star (Set [Sp]), Chr (CHR ''/''), Chr (CHR ''/''), Star (Set [Sp]), Group 4 (Star Dot)]),
     Eol]"

text \<open>The loop over the lines; the second argument \<open>fs\<close> is the array \<^verbatim>\<open>fields\<close>, to which
  \<^verbatim>\<open>push\<close> appends.\<close>

fun parseLines :: "string list \<Rightarrow> FieldInfo list \<Rightarrow> error + FieldInfo list" where
  "parseLines [] fs = Inr fs"
| "parseLines (line # rest) fs =
     (if line = [] \<or> startsWith line ''//'' then parseLines rest fs
      else (case rmatch fieldRe line of
              None \<Rightarrow> parseLines rest fs
            | Some fieldMatch \<Rightarrow>
                (case m_groups fieldMatch 1 of
                   None \<Rightarrow> Inl NotAString
                 | Some nm \<Rightarrow>
                     (case m_groups fieldMatch 2 of
                        None \<Rightarrow> Inl TypeError
                      | Some ty \<Rightarrow>
                          parseLines rest (fs @ [\<lparr>f_name = nm, f_type = trim ty,
                            f_documentation = m_groups fieldMatch 4,
                            f_tag = m_groups fieldMatch 3\<rparr>])))))"

definition isSep :: "char \<Rightarrow> bool" where
  "isSep c = (c = CHR '';'' \<or> c = CHR 0x0A)"

definition fieldLines :: "string \<Rightarrow> string list" where
  "fieldLines fieldsBlock = filter (\<lambda>l. l \<noteq> []) (map trim (split isSep fieldsBlock))"

definition parseFields :: "string \<Rightarrow> error + FieldInfo list" where
  "parseFields fieldsBlock = parseLines (fieldLines fieldsBlock) []"

section \<open>parseStructFromHover and parseInlineStruct\<close>

definition anyChar :: re where
  "anyChar = Set [Sp, NSp]"

text \<open>\<^verbatim>\<open>/```go\n([\s\S]*?)\n```/\<close>\<close>

definition codeBlockRe :: re where
  "codeBlockRe = Cat [Str [backtick, backtick, backtick, CHR ''g'', CHR ''o'', CHR 0x0A],
     Group 1 (Lazy anyChar), Str [CHR 0x0A, backtick, backtick, backtick]]"

text \<open>\<^verbatim>\<open>/type\s+(\w+)\s+struct\s*\{([\s\S]*?)\}/\<close>\<close>

definition structRe :: re where
  "structRe = Cat [Str ''type'', Plus (Set [Sp]), Group 1 (Plus (Set [Wd])), Plus (Set [Sp]),
     Str ''struct'', Star (Set [Sp]), Chr (CHR ''{''), Group 2 (Lazy anyChar), Chr (CHR ''}'')]"

text \<open>\<^verbatim>\<open>/^([\s\S]*?)```/\<close>\<close>

definition docRe :: re where
  "docRe = Cat [Bol, Group 1 (Lazy anyChar), Str [backtick, backtick, backtick]]"

text \<open>\<^verbatim>\<open>/(\w+)\s+struct\s*\{([^}]*)\}/\<close>\<close>

definition inlineRe :: re where
  "inlineRe = Cat [Group 1 (Plus (Set [Wd])), Plus (Set [Sp]), Str ''struct'', Star (Set [Sp]),
     Chr (CHR ''{''), Group 2 (Star (NSet [Ch (CHR ''}'')])), Chr (CHR ''}'')]"

definition parseInlineStruct :: "string \<Rightarrow> error + StructInfo option" where
  "parseInlineStruct content =
     (case rmatch inlineRe content of
        None \<Rightarrow> Inr None
      | Some m \<Rightarrow>
          (case m_groups m 2 of
             None \<Rightarrow> Inl TypeError
           | Some body \<Rightarrow>
               (case parseFields body of
                  Inl e \<Rightarrow> Inl e
                | Inr fs \<Rightarrow>
                    (case m_groups m 1 of
                       None \<Rightarrow> Inl NotAString
                     | Some nm \<Rightarrow>
                         Inr (Some \<lparr>s_name = nm, s_fields = fs, s_documentation = None\<rparr>)))))"

text \<open>\<^verbatim>\<open>codeBlockMatch ? codeBlockMatch[1] : content\<close>; the value is \<open>None\<close> when it
  would be \<^verbatim>\<open>undefined\<close>.\<close>

definition codeContent :: "string \<Rightarrow> string option" where
  "codeContent content =
     (case rmatch codeBlockRe content of None \<Rightarrow> Some content | Some m \<Rightarrow> m_groups m 1)"

text \<open>\<^verbatim>\<open>docMatch ? docMatch[1].trim() : undefined\<close>, then \<^verbatim>\<open>documentation || undefined\<close>.\<close>

definition documentationOf :: "string \<Rightarrow> error + string option" where
  "documentationOf content =
     (case rmatch docRe content of
        None \<Rightarrow> Inr None
      | Some docMatch \<Rightarrow>
          (case m_groups docMatch 1 of
             None \<Rightarrow> Inl TypeError
           | Some d \<Rightarrow> Inr (if trim d = [] then None else Some (trim d))))"

definition parseStructFromHover :: "string \<Rightarrow> error + StructInfo option" where
  "parseStructFromHover content =
     (case codeContent content of
        None \<Rightarrow> Inl TypeError
      | Some code \<Rightarrow>
          (case rmatch structRe code of
             None \<Rightarrow> parseInlineStruct code
           | Some structMatch \<Rightarrow>
               (case m_groups structMatch 2 of
                  None \<Rightarrow> Inl TypeError
                | Some fieldsBlock \<Rightarrow>
                    (case parseFields fieldsBlock of
                       Inl e \<Rightarrow> Inl e
                     | Inr fs \<Rightarrow>
                         (case documentationOf content of
                            Inl e \<Rightarrow> Inl e
                          | Inr documentation \<Rightarrow>
                              (case m_groups structMatch 1 of
                                 None \<Rightarrow> Inl NotAString
                               | Some structName \<Rightarrow>
                                   Inr (Some \<lparr>s_name = structName, s_fields = fs,
                                     s_documentation = documentation\<rparr>)))))))"

section \<open>Notions of the specification\<close>

text \<open>The scanner of \<open>countActiveFieldIndex\<close> is in a string mode when it is in
  double-quoted or in raw-backtick mode; it is at top level when it is in neither and
  its three depth counters are zero.\<close>

definition inString :: "counter \<Rightarrow> bool" where
  "inString st = (inDoubleQuote st \<or> inBacktick st)"

definition topLevel :: "counter \<Rightarrow> bool" where
  "topLevel st = (\<not> inString st \<and> braceDepth st = 0 \<and> parenDepth st = 0 \<and> bracketDepth st = 0)"

text \<open>
  Brace matching read forwards, as a reader of the text would pair braces: an opening
  brace is pushed with its position, a closing brace pops the innermost open one (and is
  stray when none is open). \<open>unmatchedOpens s\<close> are the positions of the opening braces
  of \<open>s\<close> that no closing brace of \<open>s\<close> matches, innermost first.
\<close>

definition bracket :: "nat list \<times> nat \<Rightarrow> char \<Rightarrow> nat list \<times> nat" where
  "bracket = (\<lambda>(stack, pos) ch.
     (if ch = CHR ''{'' then pos # stack else if ch = CHR ''}'' then tl stack else stack, Suc pos))"

definition unmatchedOpens :: "string \<Rightarrow> nat list" where
  "unmatchedOpens s = fst (foldl bracket ([], 0) s)"

text \<open>The descriptor that the loop of \<open>parseFields\<close> pushes for one line, if any; a
  line is kept when the loop does not skip it as empty or as a comment.\<close>

definition fieldOfLine :: "string \<Rightarrow> FieldInfo option" where
  "fieldOfLine line =
     (case rmatch fieldRe line of
        None \<Rightarrow> None
      | Some m \<Rightarrow>
          (case (m_groups m 1, m_groups m 2) of
             (Some nm, Some ty) \<Rightarrow>
               Some \<lparr>f_name = nm, f_type = trim ty, f_documentation = m_groups m 4, f_tag = m_groups m 3\<rparr>
           | _ \<Rightarrow> None))"

definition keptLine :: "string \<Rightarrow> bool" where
  "keptLine line = (line \<noteq> [] \<and> \<not> startsWith line ''//'')"

text \<open>The capture groups that every match of a regular expression sets, and the
  regular expressions that consume exactly one character.\<close>

fun must :: "re \<Rightarrow> nat set" where
  "must (Group k a) = insert k (must a)"
| "must (Seq a b) = must a \<union> must b"
| "must (Alt a b) = must a \<inter> must b"
| "must _ = {}"

definition atomic :: "re \<Rightarrow> bool" where
  "atomic a = (case a of Chr _ \<Rightarrow> True | Dot \<Rightarrow> True | Set _ \<Rightarrow> True | NSet _ \<Rightarrow> True | _ \<Rightarrow> False)"

text \<open>
  The names that the type pattern is made of: an identifier begins with an uppercase
  letter or an underscore and goes on with letters, digits and underscores; a type name
  is an identifier or two identifiers joined by a dot.
\<close>

definition isIdent :: "string \<Rightarrow> bool" where
  "isIdent w = (case w of [] \<Rightarrow> False | x # xs \<Rightarrow> accepts identStart x \<and> (\<forall>ch \<in> set xs. accepts identRest ch))"

definition isTypeName :: "string \<Rightarrow> bool" where
  "isTypeName w = (isIdent w \<or>
     (\<exists>k \<in> set [0..<length w]. w ! k = CHR ''.'' \<and> isIdent (take k w) \<and> isIdent (drop (Suc k) w)))"

text \<open>
  The fences of a hover text. \<open>indexOf pat s\<close> is the first position at which \<open>pat\<close>
  occurs in \<open>s\<close>. \<open>fenceInterior\<close> is the interior of the first fenced code region
  tagged \<^verbatim>\<open>go\<close>: the text between the first opening fence (three backticks, \<^verbatim>\<open>go\<close>,
  newline) and the first closing fence (newline, three backticks) after it.
  \<open>leadingText\<close> is the trimmed text before the first three backticks, absent when
  empty or when the text holds no three backticks.
\<close>

fun indexOf :: "string \<Rightarrow> string \<Rightarrow> nat option" where
  "indexOf pat [] = (if startsWith [] pat then Some 0 else None)"
| "indexOf pat (x # xs) = (if startsWith (x # xs) pat then Some 0 else map_option Suc (indexOf pat xs))"

definition ticks :: string where
  "ticks = [backtick, backtick, backtick]"

definition fenceOpen :: string where
  "fenceOpen = ticks @ ''go'' @ [CHR 0x0A]"

definition fenceClose :: string where
  "fenceClose = CHR 0x0A # ticks"

definition fenceInterior :: "string \<Rightarrow> string option" where
  "fenceInterior content =
     (case indexOf fenceOpen content of
        None \<Rightarrow> None
      | Some i \<Rightarrow>
          (case indexOf fenceClose (drop (i + length fenceOpen) content) of
             None \<Rightarrow> None
           | Some k \<Rightarrow> Some (take k (drop (i + length fenceOpen) content))))"

definition leadingText :: "string \<Rightarrow> string option" where
  "leadingText content =
     (case indexOf ticks content of
        None \<Rightarrow> None
      | Some k \<Rightarrow> (if trim (take k content) = [] then None else Some (trim (take k content))))"


text \<open>A hover text as the language server gives it: documentation, then the fenced
  definition.\<close>

definition hoverPerson :: string where
  "hoverPerson = ''Person is a person.\<newline>```go\<newline>type Person struct {\<newline>Name string\<newline>}\<newline>```''"

section \<open>Properties of countActiveFieldIndex\<close>

lemma scan_snoc: "scan (p @ [ch]) = step (scan p) ch"
  by (simp add: scan_def)

lemma index_step:
  "index (step st ch) = index st + (if ch = CHR '','' \<and> topLevel st then 1 else 0)"
  by (simp add: step_def branch_def topLevel_def inString_def dquote_def backtick_def)

lemma index_foldl:
  "index (foldl step st xs) = index st +
     length (filter (\<lambda>i. xs ! i = CHR '','' \<and> topLevel (foldl step st (take i xs))) [0..<length xs])"
proof (induction xs rule: rev_induct)
  case Nil
  then show ?case by simp
next
  case (snoc ch xs)
  have "filter (\<lambda>i. (xs @ [ch]) ! i = CHR '','' \<and> topLevel (foldl step st (take i (xs @ [ch])))) [0..<length xs]
      = filter (\<lambda>i. xs ! i = CHR '','' \<and> topLevel (foldl step st (take i xs))) [0..<length xs]"
    by (rule filter_cong) (auto simp: nth_append)
  then show ?case using snoc
    by (simp add: index_step)
qed

lemma step_inert:
  "inString st \<Longrightarrow> ch \<in> set ''{}()[],'' \<Longrightarrow> step st ch = st\<lparr>prevChar := Some ch\<rparr>"
  by (auto simp: step_def branch_def inString_def dquote_def backtick_def)

lemma step_depths:
  "\<not> inString st \<Longrightarrow>
     braceDepth (step st ch) = braceDepth st + (if ch = CHR ''{'' then 1 else if ch = CHR ''}'' then - 1 else 0) \<and>
     parenDepth (step st ch) = parenDepth st + (if ch = CHR ''('' then 1 else if ch = CHR '')'' then - 1 else 0) \<and>
     bracketDepth (step st ch) = bracketDepth st + (if ch = CHR ''['' then 1 else if ch = CHR '']'' then - 1 else 0)"
  by (simp add: step_def branch_def inString_def dquote_def backtick_def)

text \<open>
  Claim C4. The result of \<open>countActiveFieldIndex\<close> is the number of positions of the span
  that hold a comma met at top level, that is with the scanner outside both string
  modes and the three depth counters at zero (the scanner's state at a position is its
  state after the characters before it). In a string mode a bracket, brace, parenthesis
  or comma changes nothing but the remembered previous character. Outside the string
  modes an opening character adds one to its own depth counter, a closing character
  takes one from it, and no other character changes a depth counter.
\<close>

theorem countActiveFieldIndex_top_level_commas:
  "countActiveFieldIndex span =
     length (filter (\<lambda>i. span ! i = CHR '','' \<and> topLevel (scan (take i span))) [0..<length span])
   \<and> (inString (scan p) \<and> ch \<in> set ''{}()[],'' \<longrightarrow> scan (p @ [ch]) = (scan p)\<lparr>prevChar := Some ch\<rparr>)
   \<and> (\<not> inString (scan p) \<longrightarrow>
        braceDepth (scan (p @ [ch])) =
          braceDepth (scan p) + (if ch = CHR ''{'' then 1 else if ch = CHR ''}'' then - 1 else 0) \<and>
        parenDepth (scan (p @ [ch])) =
          parenDepth (scan p) + (if ch = CHR ''('' then 1 else if ch = CHR '')'' then - 1 else 0) \<and>
        bracketDepth (scan (p @ [ch])) =
          bracketDepth (scan p) + (if ch = CHR ''['' then 1 else if ch = CHR '']'' then - 1 else 0))"
proof -
  have a: "countActiveFieldIndex span =
     length (filter (\<lambda>i. span ! i = CHR '','' \<and> topLevel (scan (take i span))) [0..<length span])"
    unfolding countActiveFieldIndex_def scan_def using index_foldl [of counter0 span]
    by (simp add: counter0_def)
  show ?thesis using a step_inert [of "scan p" ch] step_depths [of "scan p" ch]
    by (simp only: scan_snoc) blast
qed

theorem countActiveFieldIndex_top_level_commas_witness:
  \<open>countActiveFieldIndex ''[]int{1, 2, 3}, '' = 1
   \<and> length (filter (\<lambda>i. ''[]int{1, 2, 3}, '' ! i = CHR '','' \<and> topLevel (scan (take i ''[]int{1, 2, 3}, '')))
        [0..<length ''[]int{1, 2, 3}, '']) = 1
   \<and> inString (scan ''"a'')
   \<and> scan (''"a'' @ [CHR '','']) = (scan ''"a'')\<lparr>prevChar := Some (CHR '','')\<rparr>
   \<and> \<not> inString (scan ''x'')
   \<and> braceDepth (scan (''x'' @ [CHR ''{''])) = braceDepth (scan ''x'') + 1
   \<and> bracketDepth (scan (''x'' @ [CHR ''{''])) = bracketDepth (scan ''x'')\<close>
proof -
  have c: \<open>countActiveFieldIndex ''[]int{1, 2, 3}, '' = 1\<close> by code_simp
  have h: \<open>inString (scan ''"a'')\<close> by code_simp
  have n: \<open>\<not> inString (scan ''x'')\<close> by code_simp
  have m: \<open>CHR '','' \<in> set ''{}()[],''\<close> by simp
  note t1 = countActiveFieldIndex_top_level_commas [of \<open>''[]int{1, 2, 3}, ''\<close> \<open>''"a''\<close> \<open>CHR '',''\<close>]
  note t2 = countActiveFieldIndex_top_level_commas [of \<open>''[]int{1, 2, 3}, ''\<close> \<open>''x''\<close> \<open>CHR ''{''\<close>]
  from t1 c have l: \<open>length (filter (\<lambda>i. ''[]int{1, 2, 3}, '' ! i = CHR '','' \<and> topLevel (scan (take i ''[]int{1, 2, 3}, '')))
        [0..<length ''[]int{1, 2, 3}, '']) = 1\<close> by (simp only:)
  from t1 h m have a: \<open>scan (''"a'' @ [CHR '','']) = (scan ''"a'')\<lparr>prevChar := Some (CHR '','')\<rparr>\<close> by blast
  from t2 n have b: \<open>braceDepth (scan (''x'' @ [CHR ''{''])) = braceDepth (scan ''x'') + 1
    \<and> bracketDepth (scan (''x'' @ [CHR ''{''])) = bracketDepth (scan ''x'')\<close> by simp
  show ?thesis using c l h a n b by blast
qed

lemma double_quote_toggle:
  "(inDoubleQuote (step st ch) \<noteq> inDoubleQuote st) =
     (ch = dquote \<and> \<not> inBacktick st \<and> prevChar st \<noteq> Some bslash)"
  by (simp add: step_def branch_def dquote_def backtick_def)

lemma comma_in_double_quote_not_counted:
  "inDoubleQuote st \<Longrightarrow> index (step st (CHR '','')) = index st"
  by (simp add: index_step topLevel_def inString_def)

text \<open>
  Claim C3 has a double quote toggle double-quoted mode unless an unescaped backslash
  precedes it, so that an escaped backslash before the quote does not suppress the
  toggle. The scanner looks at one previous character only: a double quote after a
  backslash never toggles double-quoted mode, also when that backslash is itself
  escaped. On the span of the six characters \<^verbatim>\<open>"\\", \<close> (a string literal holding
  one escaped backslash, a comma, a space) the closing quote is therefore not seen: the
  scanner is still in double-quoted mode after it and the comma is not counted.
\<close>

theorem escaped_backslash_suppresses_toggle:
  "inDoubleQuote (scan [dquote, bslash, bslash, dquote])
   \<and> countActiveFieldIndex ([dquote, bslash, bslash, dquote] @ '', '') = 0"
  by code_simp

section \<open>The backward scan of findStructLiteralContext\<close>

lemma snd_bracket: "snd (foldl bracket (stk, k) s) = k + length s"
  by (induction s arbitrary: stk k) (simp_all add: bracket_def)

lemma unmatchedOpens_snoc:
  "unmatchedOpens (s @ [ch]) =
     (if ch = CHR ''{'' then length s # unmatchedOpens s
      else if ch = CHR ''}'' then tl (unmatchedOpens s) else unmatchedOpens s)"
proof -
  obtain stk k where f: "foldl bracket ([], 0) s = (stk, k)" by (cases "foldl bracket ([], 0) s")
  then have "k = length s" using snd_bracket [of "[]" 0 s] by simp
  with f show ?thesis by (simp add: unmatchedOpens_def bracket_def)
qed

lemma take_Suc_charAt:
  "take (Suc i) s = (case charAt s i of None \<Rightarrow> take i s | Some ch \<Rightarrow> take i s @ [ch])"
  by (simp add: charAt_def take_Suc_conv_app_nth)

text \<open>Started with depth \<open>d\<close>, the backward scan stops at the \<open>d\<close>-th unmatched opening
  brace of the text before the offset.\<close>

lemma findOpenBrace_stack:
  "0 \<le> d \<Longrightarrow> findOpenBrace s k d =
     (if nat d < length (unmatchedOpens (take k s)) then Some (unmatchedOpens (take k s) ! nat d) else None)"
proof (induction k arbitrary: d)
  case 0
  then show ?case by (simp add: unmatchedOpens_def)
next
  case (Suc i)
  show ?case
  proof (cases "charAt s i")
    case None
    then show ?thesis using Suc by (simp add: take_Suc_charAt)
  next
    case (Some ch)
    have len: "length (take i s) = i" using Some by (simp add: charAt_def split: if_splits)
    have d1: "nat (d + 1) = Suc (nat d)" using Suc.prems by simp
    show ?thesis
    proof (cases "ch = CHR ''}''")
      case True
      then show ?thesis using Some Suc.IH [of "d + 1"] Suc.prems d1
        by (auto simp add: take_Suc_charAt unmatchedOpens_snoc nth_tl)
    next
      case False
      note nclose = this
      show ?thesis
      proof (cases "ch = CHR ''{''")
        case True
        show ?thesis
        proof (cases "d = 0")
          case True
          then show ?thesis using Some \<open>ch = CHR ''{''\<close> len
            by (simp add: take_Suc_charAt unmatchedOpens_snoc)
        next
          case False
          then have "0 \<le> d - 1" and "nat d = Suc (nat (d - 1))" using Suc.prems by simp_all
          then show ?thesis using Some \<open>ch = CHR ''{''\<close> False Suc.IH [of "d - 1"] len
            by (simp add: take_Suc_charAt unmatchedOpens_snoc)
        qed
      next
        case False
        then show ?thesis using Some nclose Suc.IH [of d] Suc.prems
          by (simp add: take_Suc_charAt unmatchedOpens_snoc)
      qed
    qed
  qed
qed

lemma findOpenBrace_top:
  "findOpenBrace s k 0 = (case unmatchedOpens (take k s) of [] \<Rightarrow> None | i # _ \<Rightarrow> Some i)"
  using findOpenBrace_stack [of 0 s k] by (simp split: list.splits)

text \<open>
  Claim C7. The backward scan from \<open>offset - 1\<close> (depth up on a closing brace; on an
  opening brace stop at depth zero, else depth down) stops exactly at the innermost
  opening brace before the offset that no closing brace before the offset matches, and
  finds nothing when there is none. So when no unmatched opening brace precedes the
  offset, \<open>findStructLiteralContext\<close> returns the absent value.
\<close>

theorem findStructLiteralContext_unmatched_brace:
  "findOpenBrace s offset 0 = (case unmatchedOpens (take offset s) of [] \<Rightarrow> None | i # _ \<Rightarrow> Some i)
   \<and> (unmatchedOpens (take offset s) = [] \<longrightarrow> findStructLiteralContext s offset = Inr None)"
  using findOpenBrace_top [of s offset] by (simp add: findStructLiteralContext_def)

theorem findStructLiteralContext_unmatched_brace_witness:
  "unmatchedOpens (take 14 ''f := func() {}'') = []
   \<and> findOpenBrace ''f := func() {}'' 14 0 = None
   \<and> findStructLiteralContext ''f := func() {}'' 14 = Inr None
   \<and> unmatchedOpens (take 13 ''f := func() {}'') = [12]
   \<and> findOpenBrace ''f := func() {}'' 13 0 = Some 12"
proof -
  have h: "unmatchedOpens (take 14 ''f := func() {}'') = []" by code_simp
  have g: "unmatchedOpens (take 13 ''f := func() {}'') = [12]" by code_simp
  note t1 = findStructLiteralContext_unmatched_brace [of "''f := func() {}''" 14]
  note t2 = findStructLiteralContext_unmatched_brace [of "''f := func() {}''" 13]
  from t1 h have a: "findOpenBrace ''f := func() {}'' 14 0 = None
    \<and> findStructLiteralContext ''f := func() {}'' 14 = Inr None" by simp
  from t2 g have b: "findOpenBrace ''f := func() {}'' 13 0 = Some 12" by simp
  show ?thesis using h g a b by blast
qed

lemma unmatchedOpens_nobrace:
  "CHR ''{'' \<notin> set post \<Longrightarrow> CHR ''}'' \<notin> set post \<Longrightarrow> unmatchedOpens (pre @ post) = unmatchedOpens pre"
  by (induction post rule: rev_induct) (auto simp add: unmatchedOpens_snoc simp flip: append_assoc)

lemma unmatchedOpens_single:
  assumes "CHR ''{'' \<notin> set (pre @ post)" "CHR ''}'' \<notin> set (pre @ post)"
  shows "unmatchedOpens (pre @ CHR ''{'' # post) = [length pre]"
proof -
  have "unmatchedOpens (pre @ CHR ''{'' # post) = unmatchedOpens ((pre @ [CHR ''{'']) @ post)" by simp
  also have "\<dots> = unmatchedOpens (pre @ [CHR ''{''])" using assms by (intro unmatchedOpens_nobrace) simp_all
  also have "\<dots> = length pre # unmatchedOpens pre" by (simp add: unmatchedOpens_snoc)
  also have "unmatchedOpens pre = []" using unmatchedOpens_nobrace [of pre "[]"] assms
    by (simp add: unmatchedOpens_def)
  finally show ?thesis .
qed

text \<open>
  Claim C10. The backward scan is not string-aware. Whenever the text before the offset
  holds exactly one brace character, an opening brace, the scan selects it as the
  candidate, whatever precedes it: also when the scanner of \<open>countActiveFieldIndex\<close> is in
  double-quoted or raw-backtick mode at that brace, where that scanner, unlike the
  backward scan, leaves its brace depth unchanged. The witness is the text
  \<^verbatim>\<open>msg := "Foo{\<close>, whose only brace lies inside a string literal and is selected.
\<close>

theorem backward_scan_not_string_aware:
  assumes "take offset s = pre @ CHR ''{'' # post"
    and "CHR ''{'' \<notin> set (pre @ post)" and "CHR ''}'' \<notin> set (pre @ post)"
  shows "findOpenBrace s offset 0 = Some (length pre)
    \<and> (inString (scan pre) \<longrightarrow> braceDepth (scan (pre @ [CHR ''{''])) = braceDepth (scan pre))"
proof -
  have "findOpenBrace s offset 0 = Some (length pre)"
    using findOpenBrace_top [of s offset] unmatchedOpens_single [OF assms(2,3)] assms(1) by simp
  moreover have "inString (scan pre) \<longrightarrow> braceDepth (scan (pre @ [CHR ''{''])) = braceDepth (scan pre)"
    using step_inert [of "scan pre" "CHR ''{''"] by (auto simp add: scan_snoc)
  ultimately show ?thesis by blast
qed

theorem backward_scan_not_string_aware_witness:
  \<open>inString (scan ''msg := "Foo'')
   \<and> findOpenBrace ''msg := "Foo{'' 12 0 = Some 11
   \<and> braceDepth (scan ''msg := "Foo{'') = braceDepth (scan ''msg := "Foo'')
   \<and> findStructLiteralContext ''msg := "Foo{'' 12 =
       Inr (Some \<lparr>typeName = ''Foo'', typePosition = 8, activeFieldIndex = 0\<rparr>)\<close>
proof -
  have h1: \<open>take 12 ''msg := "Foo{'' = ''msg := "Foo'' @ CHR ''{'' # []\<close> by simp
  have h2: \<open>CHR ''{'' \<notin> set (''msg := "Foo'' @ [])\<close> by simp
  have h3: \<open>CHR ''}'' \<notin> set (''msg := "Foo'' @ [])\<close> by simp
  have i: \<open>inString (scan ''msg := "Foo'')\<close> by code_simp
  have f: \<open>findStructLiteralContext ''msg := "Foo{'' 12 =
       Inr (Some \<lparr>typeName = ''Foo'', typePosition = 8, activeFieldIndex = 0\<rparr>)\<close> by code_simp
  from backward_scan_not_string_aware [OF h1 h2 h3] i have \<open>findOpenBrace ''msg := "Foo{'' 12 0 = Some 11
    \<and> braceDepth (scan ''msg := "Foo{'') = braceDepth (scan ''msg := "Foo'')\<close> by simp
  with i f show ?thesis by blast
qed

section \<open>The matcher\<close>

declare ms.simps [simp del]

lemma ms_atom [simp]:
  "ms n (Chr a) s c = (case s of [] \<Rightarrow> [] | x # xs \<Rightarrow> if x = a then [(xs, c)] else [])"
  "ms n Dot s c = (case s of [] \<Rightarrow> [] | x # xs \<Rightarrow> if accepts Dot x then [(xs, c)] else [])"
  "ms n (Set is) s c = (case s of [] \<Rightarrow> [] | x # xs \<Rightarrow> if accepts (Set is) x then [(xs, c)] else [])"
  "ms n (NSet is) s c = (case s of [] \<Rightarrow> [] | x # xs \<Rightarrow> if accepts (NSet is) x then [(xs, c)] else [])"
  by (simp_all add: ms.simps split: list.splits)

lemma ms_simple [simp]:
  "ms n Eps s c = [(s, c)]"
  "ms n Bol s c = (if length s = n then [(s, c)] else [])"
  "ms n Eol s c = (if s = [] then [(s, c)] else [])"
  "ms n (Alt a b) s c = ms n a s c @ ms n b s c"
  by (simp_all add: ms.simps)

lemma in_ms_Seq:
  "(s1, c1) \<in> set (ms n (Seq a b) s c) \<longleftrightarrow>
     (\<exists>s2 c2. (s2, c2) \<in> set (ms n a s c) \<and> (s1, c1) \<in> set (ms n b s2 c2))"
  by (auto simp: ms.simps(8))

lemma in_ms_Star:
  "(s1, c1) \<in> set (ms n (Star a) s c) \<longleftrightarrow>
     (s1, c1) = (s, c) \<or>
     (\<exists>s2 c2. (s2, c2) \<in> set (ms n a s c) \<and> length s2 < length s \<and> (s1, c1) \<in> set (ms n (Star a) s2 c2))"
  by (subst ms.simps(10)) (auto split: if_splits)

lemma in_ms_Lazy:
  "(s1, c1) \<in> set (ms n (Lazy a) s c) \<longleftrightarrow>
     (s1, c1) = (s, c) \<or>
     (\<exists>s2 c2. (s2, c2) \<in> set (ms n a s c) \<and> length s2 < length s \<and> (s1, c1) \<in> set (ms n (Lazy a) s2 c2))"
  by (subst ms.simps(11)) (auto split: if_splits)

lemma in_ms_Group:
  "(s1, c1) \<in> set (ms n (Group k a) s c) \<longleftrightarrow>
     (\<exists>c2. (s1, c2) \<in> set (ms n a s c) \<and> c1 = c2(k \<mapsto> take (length s - length s1) s))"
  by (auto simp: ms.simps(12))

lemma ms_suffix: "(s1, c1) \<in> set (ms n r s c) \<Longrightarrow> \<exists>u. s = u @ s1"
proof (induction n r s c arbitrary: s1 c1 rule: ms.induct)
  case (1 n s c)
  then show ?case by simp
next
  case (2 n a s c)
  then show ?case by (cases s) (auto split: if_splits)
next
  case (3 n s c)
  then show ?case by (cases s) (auto split: if_splits)
next
  case (4 n "is" s c)
  then show ?case by (cases s) (auto split: if_splits)
next
  case (5 n "is" s c)
  then show ?case by (cases s) (auto split: if_splits)
next
  case (6 n s c)
  then show ?case by (auto split: if_splits)
next
  case (7 n s c)
  then show ?case by (auto split: if_splits)
next
  case (8 n a b s c)
  from "8.prems" obtain s2 c2 where m: "(s2, c2) \<in> set (ms n a s c)" and r: "(s1, c1) \<in> set (ms n b s2 c2)"
    by (auto simp: in_ms_Seq)
  from "8.IH"(1) [OF m] obtain u where "s = u @ s2" by blast
  moreover from "8.IH"(2) [OF m refl r] obtain v where "s2 = v @ s1" by blast
  ultimately show ?case by simp
next
  case (9 n a b s c)
  then show ?case by auto
next
  case (10 n a s c)
  show ?case
  proof (cases "(s1, c1) = (s, c)")
    case True
    then show ?thesis by simp
  next
    case False
    with "10.prems" obtain s2 c2 where m: "(s2, c2) \<in> set (ms n a s c)" and l: "length s2 < length s"
      and r: "(s1, c1) \<in> set (ms n (Star a) s2 c2)"
      using in_ms_Star [of s1 c1 n a s c] by blast
    from "10.IH"(1) [OF m] obtain u where "s = u @ s2" by blast
    moreover from "10.IH"(2) [OF m refl l r] obtain v where "s2 = v @ s1" by blast
    ultimately show ?thesis by simp
  qed
next
  case (11 n a s c)
  show ?case
  proof (cases "(s1, c1) = (s, c)")
    case True
    then show ?thesis by simp
  next
    case False
    with "11.prems" obtain s2 c2 where m: "(s2, c2) \<in> set (ms n a s c)" and l: "length s2 < length s"
      and r: "(s1, c1) \<in> set (ms n (Lazy a) s2 c2)"
      using in_ms_Lazy [of s1 c1 n a s c] by blast
    from "11.IH"(1) [OF m] obtain u where "s = u @ s2" by blast
    moreover from "11.IH"(2) [OF m refl l r] obtain v where "s2 = v @ s1" by blast
    ultimately show ?thesis by simp
  qed
next
  case (12 n k a s c)
  then show ?case by (auto simp: in_ms_Group)
qed

lemma ms_caps: "(s1, c1) \<in> set (ms n r s c) \<Longrightarrow> k \<in> must r \<or> c k \<noteq> None \<Longrightarrow> c1 k \<noteq> None"
proof (induction n r s c arbitrary: s1 c1 rule: ms.induct)
  case (1 n s c)
  then show ?case by simp
next
  case (2 n a s c)
  then show ?case by (cases s) (auto split: if_splits)
next
  case (3 n s c)
  then show ?case by (cases s) (auto split: if_splits)
next
  case (4 n "is" s c)
  then show ?case by (cases s) (auto split: if_splits)
next
  case (5 n "is" s c)
  then show ?case by (cases s) (auto split: if_splits)
next
  case (6 n s c)
  then show ?case by (auto split: if_splits)
next
  case (7 n s c)
  then show ?case by (auto split: if_splits)
next
  case (8 n a b s c)
  from "8.prems" obtain s2 c2 where m: "(s2, c2) \<in> set (ms n a s c)" and r: "(s1, c1) \<in> set (ms n b s2 c2)"
    by (auto simp: in_ms_Seq)
  show ?case
  proof (cases "k \<in> must b")
    case True
    then show ?thesis using "8.IH"(2) [OF m refl r] by simp
  next
    case False
    with "8.prems"(2) have "k \<in> must a \<or> c k \<noteq> None" by simp
    then have "c2 k \<noteq> None" using "8.IH"(1) [OF m] by simp
    then show ?thesis using "8.IH"(2) [OF m refl r] by simp
  qed
next
  case (9 n a b s c)
  then show ?case by auto
next
  case (10 n a s c)
  show ?case
  proof (cases "(s1, c1) = (s, c)")
    case True
    then show ?thesis using "10.prems" by simp
  next
    case False
    with "10.prems" obtain s2 c2 where m: "(s2, c2) \<in> set (ms n a s c)" and l: "length s2 < length s"
      and r: "(s1, c1) \<in> set (ms n (Star a) s2 c2)"
      using in_ms_Star [of s1 c1 n a s c] by blast
    from "10.prems"(2) have "c k \<noteq> None" by simp
    then have "c2 k \<noteq> None" using "10.IH"(1) [OF m] by simp
    then show ?thesis using "10.IH"(2) [OF m refl l r] by simp
  qed
next
  case (11 n a s c)
  show ?case
  proof (cases "(s1, c1) = (s, c)")
    case True
    then show ?thesis using "11.prems" by simp
  next
    case False
    with "11.prems" obtain s2 c2 where m: "(s2, c2) \<in> set (ms n a s c)" and l: "length s2 < length s"
      and r: "(s1, c1) \<in> set (ms n (Lazy a) s2 c2)"
      using in_ms_Lazy [of s1 c1 n a s c] by blast
    from "11.prems"(2) have "c k \<noteq> None" by simp
    then have "c2 k \<noteq> None" using "11.IH"(1) [OF m] by simp
    then show ?thesis using "11.IH"(2) [OF m refl l r] by simp
  qed
next
  case (12 n j a s c)
  from "12.prems"(1) obtain c2 where m: "(s1, c2) \<in> set (ms n a s c)"
    and e: "c1 = c2(j \<mapsto> take (length s - length s1) s)" by (auto simp: in_ms_Group)
  show ?case
  proof (cases "k = j")
    case True
    then show ?thesis using e by simp
  next
    case False
    then have "k \<in> must a \<or> c k \<noteq> None" using "12.prems"(2) by simp
    then show ?thesis using "12.IH" [OF m] e False by simp
  qed
qed

declare searchFrom.simps [simp del]

lemma searchFrom_hit:
  "ms n r s Map.empty = (s1, c1) # rest \<Longrightarrow>
     searchFrom n r i s = Some \<lparr>m_index = i, m_whole = take (length s - length s1) s, m_groups = c1\<rparr>"
  by (subst searchFrom.simps) simp

lemma searchFrom_miss_Cons:
  "ms n r (x # xs) Map.empty = [] \<Longrightarrow> searchFrom n r i (x # xs) = searchFrom n r (Suc i) xs"
  by (subst searchFrom.simps) simp

lemma searchFrom_miss_Nil:
  "ms n r [] Map.empty = [] \<Longrightarrow> searchFrom n r i [] = None"
  by (subst searchFrom.simps) simp

lemma searchFrom_Some:
  "searchFrom n r i s = Some m \<Longrightarrow>
     \<exists>j s1 c1 rest. j \<le> length s \<and> ms n r (drop j s) Map.empty = (s1, c1) # rest \<and>
        (\<forall>j' < j. ms n r (drop j' s) Map.empty = []) \<and>
        m = \<lparr>m_index = i + j, m_whole = take (length s - j - length s1) (drop j s), m_groups = c1\<rparr>"
proof (induction s arbitrary: i)
  case Nil
  show ?case
  proof (cases "ms n r [] Map.empty")
    case Nil
    then show ?thesis using Nil.prems by (simp add: searchFrom_miss_Nil)
  next
    case (Cons p rest)
    obtain s1 c1 where p: "p = (s1, c1)" by (cases p)
    from Cons p have h: "ms n r [] Map.empty = (s1, c1) # rest" by simp
    from searchFrom_hit [OF h, of i] Nil.prems h show ?thesis by auto
  qed
next
  case (Cons x xs)
  show ?case
  proof (cases "ms n r (x # xs) Map.empty")
    case Nil
    with Cons.prems have "searchFrom n r (Suc i) xs = Some m" by (simp add: searchFrom_miss_Cons)
    from Cons.IH [OF this] obtain j s1 c1 rest where j: "j \<le> length xs"
      "ms n r (drop j xs) Map.empty = (s1, c1) # rest"
      "\<forall>j' < j. ms n r (drop j' xs) Map.empty = []"
      "m = \<lparr>m_index = Suc i + j, m_whole = take (length xs - j - length s1) (drop j xs), m_groups = c1\<rparr>"
      by blast
    have "\<forall>j' < Suc j. ms n r (drop j' (x # xs)) Map.empty = []"
    proof (intro allI impI)
      fix j' assume "j' < Suc j"
      then show "ms n r (drop j' (x # xs)) Map.empty = []" using Nil j(3) by (cases j') auto
    qed
    with j show ?thesis
      by (intro exI [of _ "Suc j"] exI [of _ s1] exI [of _ c1] exI [of _ rest]) simp
  next
    case (Cons p rest)
    obtain s1 c1 where p: "p = (s1, c1)" by (cases p)
    from Cons p have h: "ms n r (x # xs) Map.empty = (s1, c1) # rest" by simp
    from searchFrom_hit [OF h, of i] Cons.prems have "m = \<lparr>m_index = i, m_whole = take (length (x # xs) - length s1) (x # xs), m_groups = c1\<rparr>"
      by simp
    with h show ?thesis
      by (intro exI [of _ 0] exI [of _ s1] exI [of _ c1] exI [of _ rest]) simp
  qed
qed

lemma searchFrom_None:
  "searchFrom n r i s = None \<Longrightarrow> j \<le> length s \<Longrightarrow> ms n r (drop j s) Map.empty = []"
proof (induction s arbitrary: i j)
  case Nil
  then show ?case by (cases "ms n r [] Map.empty") (auto simp: searchFrom_hit)
next
  case (Cons x xs)
  have e: "ms n r (x # xs) Map.empty = []"
    using Cons.prems(1) by (cases "ms n r (x # xs) Map.empty") (auto simp: searchFrom_hit)
  show ?case
  proof (cases j)
    case 0
    then show ?thesis using e by simp
  next
    case (Suc j')
    from Cons.prems(1) e have "searchFrom n r (Suc i) xs = None" by (simp add: searchFrom_miss_Cons)
    from Cons.IH [OF this, of j'] Cons.prems(2) Suc show ?thesis by simp
  qed
qed

lemma atomic_simps [simp]: "atomic (Chr a)" "atomic Dot" "atomic (Set is)" "atomic (NSet is)"
  by (simp_all add: atomic_def)

lemma ms_atomic:
  "atomic a \<Longrightarrow> ms n a s c = (case s of [] \<Rightarrow> [] | x # xs \<Rightarrow> if accepts a x then [(xs, c)] else [])"
  by (cases a) (simp_all add: atomic_def split: list.splits)

lemma upt_Suc_shift: "[0..<Suc (Suc m)] = 0 # map Suc [0..<Suc m]"
proof -
  have "[0..<Suc (Suc m)] = 0 # [Suc 0..<Suc (Suc m)]" by (rule upt_conv_Cons) simp
  also have "[Suc 0..<Suc (Suc m)] = map Suc [0..<Suc m]" by (rule map_Suc_upt [symmetric])
  finally show ?thesis .
qed

lemma ms_Star_atomic:
  "atomic a \<Longrightarrow> ms n (Star a) s c =
     map (\<lambda>k. (drop k s, c)) (rev [0..<Suc (length (takeWhile (accepts a) s))])"
proof (induction s)
  case Nil
  then show ?case by (subst ms.simps) (simp add: ms_atomic)
next
  case (Cons x xs)
  show ?case
  proof (cases "accepts a x")
    case False
    then show ?thesis using Cons.prems by (subst ms.simps) (simp add: ms_atomic)
  next
    case True
    have "ms n (Star a) (x # xs) c = ms n (Star a) xs c @ [(x # xs, c)]"
      using True Cons.prems by (subst ms.simps) (simp add: ms_atomic)
    also have "\<dots> = map (\<lambda>k. (drop k xs, c)) (rev [0..<Suc (length (takeWhile (accepts a) xs))]) @ [(x # xs, c)]"
      using Cons by (simp del: upt_Suc)
    also have "\<dots> = map (\<lambda>k. (drop k (x # xs), c)) (rev [0..<Suc (Suc (length (takeWhile (accepts a) xs)))])"
    proof -
      let ?m = "length (takeWhile (accepts a) xs)"
      show ?thesis by (simp del: upt_Suc add: upt_Suc_shift rev_map comp_def)
    qed
    finally show ?thesis using True by simp
  qed
qed

lemma ms_Lazy_atomic:
  "atomic a \<Longrightarrow> ms n (Lazy a) s c =
     map (\<lambda>k. (drop k s, c)) [0..<Suc (length (takeWhile (accepts a) s))]"
proof (induction s)
  case Nil
  then show ?case by (subst ms.simps) (simp add: ms_atomic)
next
  case (Cons x xs)
  show ?case
  proof (cases "accepts a x")
    case False
    then show ?thesis using Cons.prems by (subst ms.simps) (simp add: ms_atomic)
  next
    case True
    have "ms n (Lazy a) (x # xs) c = (x # xs, c) # ms n (Lazy a) xs c"
      using True Cons.prems by (subst ms.simps) (simp add: ms_atomic)
    also have "\<dots> = (x # xs, c) # map (\<lambda>k. (drop k xs, c)) [0..<Suc (length (takeWhile (accepts a) xs))]"
      using Cons by simp
    also have "\<dots> = map (\<lambda>k. (drop k (x # xs), c)) [0..<Suc (Suc (length (takeWhile (accepts a) xs)))]"
    proof -
      let ?m = "length (takeWhile (accepts a) xs)"
      show ?thesis by (simp del: upt_Suc add: upt_Suc_shift comp_def)
    qed
    finally show ?thesis using True by simp
  qed
qed

lemma rmatch_groups:
  assumes "rmatch r s = Some m" "k \<in> must r"
  shows "m_groups m k \<noteq> None"
proof -
  from assms(1) obtain j s1 c1 rest where
    h: "ms (length s) r (drop j s) Map.empty = (s1, c1) # rest" and m: "m_groups m = c1"
    unfolding rmatch_def using searchFrom_Some [of "length s" r 0 s m] by auto
  from h have "(s1, c1) \<in> set (ms (length s) r (drop j s) Map.empty)" by simp
  from ms_caps [OF this, of k] assms(2) m show ?thesis by simp
qed

lemmas re_defs = typeRe_def identStart_def identRest_def Opt_def Plus_def LazyPlus_def Str_def
  fieldRe_def anyChar_def codeBlockRe_def structRe_def docRe_def inlineRe_def

lemma must_typeRe: "1 \<in> must typeRe" "2 \<in> must typeRe"
  by (simp_all add: re_defs)

lemma must_fieldRe: "1 \<in> must fieldRe" "2 \<in> must fieldRe"
  by (simp_all add: re_defs)

lemma must_others: "1 \<in> must codeBlockRe" "1 \<in> must structRe" "2 \<in> must structRe"
  "1 \<in> must docRe" "1 \<in> must inlineRe" "2 \<in> must inlineRe"
  by (simp_all add: re_defs)

section \<open>No operation raises\<close>

lemma findStructLiteralContext_total: "\<exists>r. findStructLiteralContext s offset = Inr r"
proof (cases "findOpenBrace s offset 0")
  case None
  then show ?thesis by (simp add: findStructLiteralContext_def)
next
  case (Some ob)
  show ?thesis
  proof (cases "rmatch typeRe (trimEnd (substring s 0 ob))")
    case None
    then show ?thesis using Some by (simp add: findStructLiteralContext_def)
  next
    case (Some m)
    from rmatch_groups [OF Some must_typeRe(1)] rmatch_groups [OF Some must_typeRe(2)]
    obtain g1 g2 where "m_groups m 1 = Some g1" "m_groups m 2 = Some g2" by auto
    then show ?thesis using Some \<open>findOpenBrace s offset 0 = Some ob\<close>
      by (simp add: findStructLiteralContext_def)
  qed
qed

lemma parseLines_eq:
  "parseLines ls acc = Inr (acc @ List.map_filter fieldOfLine (filter keptLine ls))"
proof (induction ls arbitrary: acc)
  case Nil
  then show ?case by (simp add: List.map_filter_simps)
next
  case (Cons l ls)
  show ?case
  proof (cases "keptLine l")
    case False
    then show ?thesis using Cons by (auto simp: keptLine_def)
  next
    case True
    show ?thesis
    proof (cases "rmatch fieldRe l")
      case None
      then show ?thesis using True Cons by (simp add: keptLine_def fieldOfLine_def List.map_filter_simps)
    next
      case (Some m)
      from rmatch_groups [OF Some must_fieldRe(1)] rmatch_groups [OF Some must_fieldRe(2)]
      obtain g1 g2 where "m_groups m 1 = Some g1" "m_groups m 2 = Some g2" by auto
      then show ?thesis using True Cons Some
        by (simp add: keptLine_def fieldOfLine_def List.map_filter_simps)
    qed
  qed
qed

lemma parseFields_eq:
  "parseFields body = Inr (List.map_filter fieldOfLine (filter keptLine (map trim (split isSep body))))"
proof -
  have "filter keptLine (filter (\<lambda>l. l \<noteq> []) ls) = filter keptLine ls" for ls
    by (induction ls) (auto simp: keptLine_def)
  then show ?thesis by (simp add: parseFields_def fieldLines_def parseLines_eq)
qed

lemma documentationOf_total: "\<exists>d. documentationOf content = Inr d"
proof (cases "rmatch docRe content")
  case None
  then show ?thesis by (simp add: documentationOf_def)
next
  case (Some m)
  from rmatch_groups [OF Some must_others(4)] obtain g where "m_groups m 1 = Some g" by auto
  then show ?thesis using Some by (simp add: documentationOf_def)
qed

lemma codeContent_total: "\<exists>code. codeContent content = Some code"
proof (cases "rmatch codeBlockRe content")
  case None
  then show ?thesis by (simp add: codeContent_def)
next
  case (Some m)
  from rmatch_groups [OF Some must_others(1)] obtain g where "m_groups m 1 = Some g" by auto
  then show ?thesis using Some by (simp add: codeContent_def)
qed

lemma parseInlineStruct_total: "\<exists>r. parseInlineStruct content = Inr r"
proof (cases "rmatch inlineRe content")
  case None
  then show ?thesis by (simp add: parseInlineStruct_def)
next
  case (Some m)
  from rmatch_groups [OF Some must_others(5)] rmatch_groups [OF Some must_others(6)]
  obtain g1 g2 where "m_groups m 1 = Some g1" "m_groups m 2 = Some g2" by auto
  then show ?thesis using Some by (simp add: parseInlineStruct_def parseFields_eq)
qed

lemma parseStructFromHover_total: "\<exists>r. parseStructFromHover content = Inr r"
proof -
  obtain code where c: "codeContent content = Some code" using codeContent_total by blast
  obtain d where d: "documentationOf content = Inr d" using documentationOf_total by blast
  show ?thesis
  proof (cases "rmatch structRe code")
    case None
    then show ?thesis using c parseInlineStruct_total [of code] by (simp add: parseStructFromHover_def)
  next
    case (Some m)
    from rmatch_groups [OF Some must_others(2)] rmatch_groups [OF Some must_others(3)]
    obtain g1 g2 where "m_groups m 1 = Some g1" "m_groups m 2 = Some g2" by auto
    then show ?thesis using Some c d by (simp add: parseStructFromHover_def parseFields_eq)
  qed
qed

lemma index_le_length: "index (foldl step st xs) \<le> index st + length xs"
proof -
  have "length (filter (\<lambda>i. xs ! i = CHR '','' \<and> topLevel (foldl step st (take i xs))) [0..<length xs])
      \<le> length [0..<length xs]" by (rule length_filter_le)
  then show ?thesis using index_foldl [of st xs] by simp
qed

text \<open>
  Claim C5. Every operation of the core is a total function: the scans recurse on the
  text, the matcher on the regular expression and the remaining input. None of them
  reaches a \<open>TypeError\<close> or an ill-typed result on any input: every capture group that
  the code reads without a guard is set by every match of its regular expression.
  \<open>findStructLiteralContext\<close>, \<open>parseStructFromHover\<close> and \<open>parseInlineStruct\<close> return a
  descriptor or the absent value, \<open>parseFields\<close> a list of descriptors, and
  \<open>countActiveFieldIndex\<close> a count that is at most the length of the span, also when
  the depth counters become negative.
\<close>

theorem core_operations_total:
  "(\<exists>r. findStructLiteralContext s offset = Inr r)
   \<and> countActiveFieldIndex span \<le> length span
   \<and> (\<exists>r. parseStructFromHover content = Inr r)
   \<and> (\<exists>r. parseInlineStruct content = Inr r)
   \<and> (\<exists>fs. parseFields body = Inr fs)"
proof -
  have "countActiveFieldIndex span \<le> length span"
    using index_le_length [of counter0 span] by (simp add: countActiveFieldIndex_def scan_def counter0_def)
  then show ?thesis
    using findStructLiteralContext_total [of s offset] parseStructFromHover_total [of content]
      parseInlineStruct_total [of content] parseFields_eq [of body]
    by blast
qed

theorem core_operations_total_witness:
  "findStructLiteralContext ''x := }}{{T{'' 11 = Inr (Some \<lparr>typeName = ''T'', typePosition = 9, activeFieldIndex = 0\<rparr>)
   \<and> braceDepth (scan ''}}, ),'') = - 2 \<and> parenDepth (scan ''}}, ),'') = - 1
   \<and> countActiveFieldIndex ''}}, ),'' = 0
   \<and> parseStructFromHover ''type struct {{{'' = Inr None
   \<and> parseFields ''}{; ;;`` //'' = Inr []"
proof -
  note t = core_operations_total [of "''x := }}{{T{''" 11 "''}}, ),''" "''type struct {{{''" "''}{; ;;`` //''"]
  have a: "findStructLiteralContext ''x := }}{{T{'' 11 = Inr (Some \<lparr>typeName = ''T'', typePosition = 9, activeFieldIndex = 0\<rparr>)"
    by code_simp
  have b: "braceDepth (scan ''}}, ),'') = - 2 \<and> parenDepth (scan ''}}, ),'') = - 1" by code_simp
  have c: "countActiveFieldIndex ''}}, ),'' = 0" by code_simp
  have d: "parseStructFromHover ''type struct {{{'' = Inr None" by code_simp
  have e: "parseFields ''}{; ;;`` //'' = Inr []" by code_simp
  from t a b c d e show ?thesis by blast
qed

section \<open>parseFields\<close>

lemma split_nonempty: "split p s \<noteq> []"
  by (induction s) (auto split: list.splits)

lemma split_append:
  "p sep \<Longrightarrow> split p (a @ sep # b) = split p a @ split p b"
proof (induction a)
  case Nil
  then show ?case by simp
next
  case (Cons x a)
  then show ?case using split_nonempty [of p a]
    by (cases "split p a") auto
qed

lemma split_single: "\<forall>ch \<in> set s. \<not> p ch \<Longrightarrow> split p s = [s]"
  by (induction s) auto

lemma map_filter_append:
  "List.map_filter f (xs @ ys) = List.map_filter f xs @ List.map_filter f ys"
  by (simp add: List.map_filter_def)

text \<open>
  Claim C8. The descriptors come in the textual order of their lines: the descriptors
  of a body cut at a semicolon or newline are those of the part before the separator
  followed by those of the part after it, and a body without a separator gives at most
  one descriptor, that of its only line.
\<close>

theorem parseFields_textual_order:
  "(isSep sep \<longrightarrow>
      (\<exists>fa fb. parseFields a = Inr fa \<and> parseFields b = Inr fb \<and> parseFields (a @ sep # b) = Inr (fa @ fb)))
   \<and> ((\<forall>ch \<in> set body. \<not> isSep ch) \<longrightarrow>
      parseFields body = Inr (if keptLine (trim body) then (case fieldOfLine (trim body) of None \<Rightarrow> [] | Some f \<Rightarrow> [f]) else []))"
proof (intro conjI impI)
  assume "isSep sep"
  then show "\<exists>fa fb. parseFields a = Inr fa \<and> parseFields b = Inr fb \<and> parseFields (a @ sep # b) = Inr (fa @ fb)"
    by (simp add: parseFields_eq split_append map_filter_append)
next
  assume "\<forall>ch \<in> set body. \<not> isSep ch"
  then show "parseFields body = Inr (if keptLine (trim body) then (case fieldOfLine (trim body) of None \<Rightarrow> [] | Some f \<Rightarrow> [f]) else [])"
    by (simp add: parseFields_eq split_single List.map_filter_simps split: option.splits)
qed

theorem parseFields_textual_order_witness:
  "isSep (CHR 0x0A)
   \<and> parseFields ''Name string'' = Inr [\<lparr>f_name = ''Name'', f_type = ''string'', f_documentation = None, f_tag = None\<rparr>]
   \<and> parseFields ''Age int'' = Inr [\<lparr>f_name = ''Age'', f_type = ''int'', f_documentation = None, f_tag = None\<rparr>]
   \<and> parseFields (''Name string'' @ CHR 0x0A # ''Age int'') =
       Inr [\<lparr>f_name = ''Name'', f_type = ''string'', f_documentation = None, f_tag = None\<rparr>,
            \<lparr>f_name = ''Age'', f_type = ''int'', f_documentation = None, f_tag = None\<rparr>]
   \<and> keptLine (trim '' Age int'')
   \<and> fieldOfLine (trim '' Age int'') = Some \<lparr>f_name = ''Age'', f_type = ''int'', f_documentation = None, f_tag = None\<rparr>
   \<and> parseFields '' Age int'' = Inr [\<lparr>f_name = ''Age'', f_type = ''int'', f_documentation = None, f_tag = None\<rparr>]"
proof -
  note t = parseFields_textual_order [of "CHR 0x0A" "''Name string''" "''Age int''" "'' Age int''"]
  have s: "isSep (CHR 0x0A)" by code_simp
  have a: "parseFields ''Name string'' = Inr [\<lparr>f_name = ''Name'', f_type = ''string'', f_documentation = None, f_tag = None\<rparr>]"
    by code_simp
  have b: "parseFields ''Age int'' = Inr [\<lparr>f_name = ''Age'', f_type = ''int'', f_documentation = None, f_tag = None\<rparr>]"
    by code_simp
  have n: "\<forall>ch \<in> set '' Age int''. \<not> isSep ch" by code_simp
  have k: "keptLine (trim '' Age int'')" by code_simp
  have f: "fieldOfLine (trim '' Age int'') = Some \<lparr>f_name = ''Age'', f_type = ''int'', f_documentation = None, f_tag = None\<rparr>"
    by code_simp
  from t s a b have ab: "parseFields (''Name string'' @ CHR 0x0A # ''Age int'') =
       Inr [\<lparr>f_name = ''Name'', f_type = ''string'', f_documentation = None, f_tag = None\<rparr>,
            \<lparr>f_name = ''Age'', f_type = ''int'', f_documentation = None, f_tag = None\<rparr>]" by auto
  from t n k f have c: "parseFields '' Age int'' = Inr [\<lparr>f_name = ''Age'', f_type = ''int'', f_documentation = None, f_tag = None\<rparr>]"
    by simp
  from s a b ab k f c show ?thesis by blast
qed

lemma Plus_Sp_empty:
  assumes "s = [] \<or> \<not> isSpace (hd s)"
  shows "ms n (Plus (Set [Sp])) s c = []"
  using assms by (cases s) (auto simp: Plus_def ms.simps(8))

lemma fieldRe_needs_space:
  assumes "(s1, c1) \<in> set (ms n fieldRe s c)"
  shows "\<exists>ch \<in> set s. isSpace ch"
proof -
  let ?rest = "Cat [Group 2 (LazyPlus (NSet [Ch backtick, Ch (CHR ''/''), Ch (CHR 0x0A)])),
     Opt (Cat [Plus (Set [Sp]), Chr backtick, Group 3 (Star (NSet [Ch backtick])), Chr backtick]),
     Opt (Cat [Star (Set [Sp]), Chr (CHR ''/''), Chr (CHR ''/''), Star (Set [Sp]), Group 4 (Star Dot)]),
     Eol]"
  from assms obtain s2 c2 s3 c3 s4 c4 where
    a: "(s2, c2) \<in> set (ms n Bol s c)" and
    b: "(s3, c3) \<in> set (ms n (Group 1 (Plus (Set [Wd]))) s2 c2)" and
    d: "(s4, c4) \<in> set (ms n (Plus (Set [Sp])) s3 c3)"
    unfolding fieldRe_def Cat.simps by (auto simp: in_ms_Seq)
  from a have "s2 = s" by (auto split: if_splits)
  from ms_suffix [OF b] obtain u where u: "s = u @ s3" using \<open>s2 = s\<close> by auto
  from d have "ms n (Plus (Set [Sp])) s3 c3 \<noteq> []" by auto
  then have "s3 \<noteq> []" "isSpace (hd s3)" using Plus_Sp_empty [of s3 n c3] by auto
  then have "hd s3 \<in> set s" using u by (cases s3) auto
  with \<open>isSpace (hd s3)\<close> show ?thesis by blast
qed

lemma fieldOfLine_no_space:
  assumes "\<forall>ch \<in> set line. \<not> isSpace ch"
  shows "fieldOfLine line = None"
proof (cases "rmatch fieldRe line")
  case None
  then show ?thesis by (simp add: fieldOfLine_def)
next
  case (Some m)
  then obtain j s1 c1 rest where
    h: "ms (length line) fieldRe (drop j line) Map.empty = (s1, c1) # rest"
    unfolding rmatch_def using searchFrom_Some [of "length line" fieldRe 0 line m] by auto
  then have "(s1, c1) \<in> set (ms (length line) fieldRe (drop j line) Map.empty)" by simp
  from fieldRe_needs_space [OF this] obtain ch where "ch \<in> set (drop j line)" "isSpace ch" by blast
  then have "ch \<in> set line" by (meson in_set_dropD)
  with assms \<open>isSpace ch\<close> show ?thesis by blast
qed

text \<open>
  Claim C9. \<open>parseFields\<close> splits the body at semicolons and newlines, trims the pieces,
  keeps the pieces that are neither empty nor begin with \<^verbatim>\<open>//\<close>, and returns, without
  error, the descriptors of the kept lines that fit the field shape; a line that does
  not fit contributes nothing. A line without white space, such as a bare embedded
  type name, never fits.
\<close>

theorem parseFields_lines_and_skips:
  "parseFields body = Inr (List.map_filter fieldOfLine (filter keptLine (map trim (split isSep body))))
   \<and> ((\<forall>ch \<in> set line. \<not> isSpace ch) \<longrightarrow> fieldOfLine line = None)"
  using parseFields_eq [of body] fieldOfLine_no_space [of line] by blast

theorem parseFields_lines_and_skips_witness:
  "filter keptLine (map trim (split isSep (''// comment'' @ CHR 0x0A # ''sync.Mutex;  ; Name string''))) =
     [''sync.Mutex'', ''Name string'']
   \<and> fieldOfLine ''sync.Mutex'' = None
   \<and> parseFields (''// comment'' @ CHR 0x0A # ''sync.Mutex;  ; Name string'') =
       Inr [\<lparr>f_name = ''Name'', f_type = ''string'', f_documentation = None, f_tag = None\<rparr>]"
proof -
  note t = parseFields_lines_and_skips [of "''// comment'' @ CHR 0x0A # ''sync.Mutex;  ; Name string''" "''sync.Mutex''"]
  have l: "filter keptLine (map trim (split isSep (''// comment'' @ CHR 0x0A # ''sync.Mutex;  ; Name string''))) =
     [''sync.Mutex'', ''Name string'']" by code_simp
  have n: "\<forall>ch \<in> set ''sync.Mutex''. \<not> isSpace ch" by code_simp
  have f: "fieldOfLine ''Name string'' = Some \<lparr>f_name = ''Name'', f_type = ''string'', f_documentation = None, f_tag = None\<rparr>"
    by code_simp
  from t n have m: "fieldOfLine ''sync.Mutex'' = None" by blast
  from t have p: "parseFields (''// comment'' @ CHR 0x0A # ''sync.Mutex;  ; Name string'') =
    Inr (List.map_filter fieldOfLine (filter keptLine (map trim (split isSep
      (''// comment'' @ CHR 0x0A # ''sync.Mutex;  ; Name string'')))))" by (rule conjunct1)
  have q: "List.map_filter fieldOfLine [''sync.Mutex'', ''Name string''] =
    [\<lparr>f_name = ''Name'', f_type = ''string'', f_documentation = None, f_tag = None\<rparr>]"
    by (simp only: List.map_filter_simps m f option.case)
  have "parseFields (''// comment'' @ CHR 0x0A # ''sync.Mutex;  ; Name string'') =
       Inr [\<lparr>f_name = ''Name'', f_type = ''string'', f_documentation = None, f_tag = None\<rparr>]"
    by (simp only: p l q)
  with l m show ?thesis by blast
qed

section \<open>First matches\<close>

lemma concat_Eps: "concat (map (\<lambda>(s1, c1). ms n Eps s1 c1) xs) = xs"
  by (induction xs) auto

lemma ms_Seq_Eps: "ms n (Seq a Eps) s c = ms n a s c"
  by (simp only: ms.simps(8) concat_Eps)


lemma ms_Str:
  "ms n (Str lit) s c = (if take (length lit) s = lit \<and> length lit \<le> length s then [(drop (length lit) s, c)] else [])"
proof (induction lit arbitrary: s)
  case Nil
  then show ?case by (simp add: Str_def)
next
  case (Cons x lit)
  have e: "Str (x # lit) = Seq (Chr x) (Str lit)" by (simp add: Str_def)
  show ?case
  proof (cases s)
    case Nil
    then show ?thesis by (simp add: e ms.simps(8))
  next
    case (Cons y ys)
    then show ?thesis using Cons.IH [of ys] by (auto simp add: e ms.simps(8))
  qed
qed

lemma accepts_anyChar: "accepts anyChar ch"
  by (simp add: anyChar_def)

lemma takeWhile_anyChar: "takeWhile (accepts anyChar) s = s"
  by (simp add: accepts_anyChar)

lemma atomic_anyChar: "atomic anyChar"
  by (simp add: anyChar_def)

text \<open>A lazy run of arbitrary characters in a group, followed by \<open>b\<close>: the matcher tries
  \<open>b\<close> after 0, 1, 2, ... characters.\<close>

lemma ms_lazy_any:
  "ms n (Seq (Group k (Lazy anyChar)) b) s c =
     concat (map (\<lambda>j. ms n b (drop j s) (c(k \<mapsto> take j s))) [0..<Suc (length s)])"
proof -
  have "ms n (Group k (Lazy anyChar)) s c = map (\<lambda>j. (drop j s, c(k \<mapsto> take j s))) [0..<Suc (length s)]"
    by (simp add: ms.simps(12) ms_Lazy_atomic [OF atomic_anyChar] takeWhile_anyChar comp_def del: upt_Suc)
  then show ?thesis by (simp add: ms.simps(8) comp_def del: upt_Suc)
qed

lemma concat_map_upt_first:
  assumes "concat (map f [0..<m]) = p # rest"
  shows "\<exists>j < m. (\<forall>i < j. f i = []) \<and> (\<exists>rest'. f j = p # rest')"
  using assms
proof (induction m arbitrary: p rest)
  case 0
  then show ?case by simp
next
  case (Suc m)
  show ?case
  proof (cases "concat (map f [0..<m])")
    case Nil
    then have z: "\<forall>i < m. f i = []" by auto
    from Suc.prems Nil have "f m = p # rest" by simp
    with z show ?thesis by blast
  next
    case (Cons q qs)
    with Suc.prems have "q = p" by simp
    from Suc.IH [of q qs] Cons obtain j where "j < m" "\<forall>i < j. f i = []" "\<exists>rest'. f j = q # rest'" by blast
    with \<open>q = p\<close> show ?thesis using less_Suc_eq by blast
  qed
qed

lemma concat_map_upt_empty: "concat (map f [0..<m]) = [] \<longleftrightarrow> (\<forall>j < m. f j = [])"
  by auto

lemma in_ms_Chr: "(s1, c1) \<in> set (ms n (Chr x) s c) \<longleftrightarrow> s = x # s1 \<and> c1 = c"
  by (cases s) auto


lemma in_ms_Star_atomic:
  assumes "atomic a"
  shows "(s1, c1) \<in> set (ms n (Star a) s c) \<longleftrightarrow>
     (\<exists>u. s = u @ s1 \<and> (\<forall>ch \<in> set u. accepts a ch) \<and> c1 = c)"
proof
  assume "(s1, c1) \<in> set (ms n (Star a) s c)"
  then obtain k where k: "k \<le> length (takeWhile (accepts a) s)" "s1 = drop k s" "c1 = c"
    by (fastforce simp: ms_Star_atomic [OF assms] less_Suc_eq_le simp del: upt_Suc)
  have "take k s = take k (takeWhile (accepts a) s @ dropWhile (accepts a) s)" by simp
  also have "\<dots> = take k (takeWhile (accepts a) s)" using k(1) by (simp del: takeWhile_dropWhile_id)
  finally have "take k s = take k (takeWhile (accepts a) s)" .
  then have "\<forall>ch \<in> set (take k s). accepts a ch"
    by (metis in_set_takeD set_takeWhileD)
  with k show "\<exists>u. s = u @ s1 \<and> (\<forall>ch \<in> set u. accepts a ch) \<and> c1 = c"
    by (intro exI [of _ "take k s"]) simp
next
  assume "\<exists>u. s = u @ s1 \<and> (\<forall>ch \<in> set u. accepts a ch) \<and> c1 = c"
  then obtain u where u: "s = u @ s1" "\<forall>ch \<in> set u. accepts a ch" "c1 = c" by blast
  have "length u \<le> length (takeWhile (accepts a) s)"
    using u(1,2) by (simp add: takeWhile_append2)
  moreover have "s1 = drop (length u) s" using u(1) by simp
  ultimately show "(s1, c1) \<in> set (ms n (Star a) s c)"
    using u(3) by (force simp: ms_Star_atomic [OF assms] less_Suc_eq_le simp del: upt_Suc)
qed


lemma rmatch_Some:
  assumes "rmatch r s = Some m"
  shows "\<exists>j s1 c1 rest. j \<le> length s \<and> ms (length s) r (drop j s) Map.empty = (s1, c1) # rest \<and>
     (\<forall>j' < j. ms (length s) r (drop j' s) Map.empty = []) \<and>
     m_index m = j \<and> m_whole m = take (length s - j - length s1) (drop j s) \<and> m_groups m = c1"
proof -
  from assms have "searchFrom (length s) r 0 s = Some m" by (simp add: rmatch_def)
  from searchFrom_Some [OF this] obtain j s1 c1 rest where
    h: "j \<le> length s" "ms (length s) r (drop j s) Map.empty = (s1, c1) # rest"
      "\<forall>j' < j. ms (length s) r (drop j' s) Map.empty = []"
      "m = \<lparr>m_index = 0 + j, m_whole = take (length s - j - length s1) (drop j s), m_groups = c1\<rparr>"
    by blast
  from h(4) have "m_index m = j" "m_whole m = take (length s - j - length s1) (drop j s)" "m_groups m = c1"
    by simp_all
  with h(1-3) show ?thesis by blast
qed

section \<open>parseStructFromHover: the struct pattern\<close>

lemma accepts_Sp [simp]: "accepts (Set [Sp]) ch = isSpace ch"
  by simp

lemma accepts_Wd [simp]: "accepts (Set [Wd]) ch = isWord ch"
  by simp





section \<open>findStructLiteralContext: the type name\<close>

lemma isTypeName_iff:
  "isTypeName w \<longleftrightarrow> isIdent w \<or> (\<exists>a b. w = a @ CHR ''.'' # b \<and> isIdent a \<and> isIdent b)"
proof -
  have "(\<exists>k \<in> set [0..<length w]. w ! k = CHR ''.'' \<and> isIdent (take k w) \<and> isIdent (drop (Suc k) w))
      \<longleftrightarrow> (\<exists>a b. w = a @ CHR ''.'' # b \<and> isIdent a \<and> isIdent b)"
  proof
    assume "\<exists>k \<in> set [0..<length w]. w ! k = CHR ''.'' \<and> isIdent (take k w) \<and> isIdent (drop (Suc k) w)"
    then obtain k where k: "k < length w" "w ! k = CHR ''.''" "isIdent (take k w)" "isIdent (drop (Suc k) w)"
      by auto
    from k(1,2) have "w = take k w @ CHR ''.'' # drop (Suc k) w" using id_take_nth_drop [of k w] by simp
    with k(3,4) show "\<exists>a b. w = a @ CHR ''.'' # b \<and> isIdent a \<and> isIdent b" by blast
  next
    assume "\<exists>a b. w = a @ CHR ''.'' # b \<and> isIdent a \<and> isIdent b"
    then obtain a b where ab: "w = a @ CHR ''.'' # b" "isIdent a" "isIdent b" by blast
    then have "length a < length w" "w ! length a = CHR ''.''" "isIdent (take (length a) w)"
      "isIdent (drop (Suc (length a)) w)" by simp_all
    then show "\<exists>k \<in> set [0..<length w]. w ! k = CHR ''.'' \<and> isIdent (take k w) \<and> isIdent (drop (Suc k) w)"
      by auto
  qed
  then show ?thesis by (simp only: isTypeName_def)
qed

lemma atomic_ident [simp]: "atomic identStart" "atomic identRest"
  by (simp_all add: identStart_def identRest_def)

lemma identStart_chars:
  "accepts identStart x \<Longrightarrow> x \<noteq> CHR ''.'' \<and> x \<noteq> CHR ''&'' \<and> \<not> isSpace x \<and> accepts identRest x"
  by (auto simp: identStart_def identRest_def isSpace_def)

lemma identRest_chars: "accepts identRest x \<Longrightarrow> x \<noteq> CHR ''.''"
  by (auto simp: identRest_def)

lemma in_ms_atomic:
  "atomic a \<Longrightarrow> (s1, c1) \<in> set (ms n a s c) \<longleftrightarrow> (\<exists>x. s = x # s1 \<and> accepts a x \<and> c1 = c)"
  by (cases s) (auto simp: ms_atomic)

lemma in_ms_Seq_Chr:
  "(s1, c1) \<in> set (ms n (Seq (Chr x) R) s c) \<longleftrightarrow> (\<exists>s'. s = x # s' \<and> (s1, c1) \<in> set (ms n R s' c))"
  by (auto simp: in_ms_Seq in_ms_Chr)

lemma in_ms_ident:
  "(s1, c1) \<in> set (ms n (Seq identStart (Seq (Star identRest) X)) s c) \<longleftrightarrow>
     (\<exists>w s'. isIdent w \<and> s = w @ s' \<and> (s1, c1) \<in> set (ms n X s' c))"
proof
  assume "(s1, c1) \<in> set (ms n (Seq identStart (Seq (Star identRest) X)) s c)"
  then obtain x u s' where "s = x # u @ s'" "accepts identStart x" "\<forall>ch \<in> set u. accepts identRest ch"
    "(s1, c1) \<in> set (ms n X s' c)"
    by (auto simp: in_ms_Seq in_ms_atomic in_ms_Star_atomic)
  then show "\<exists>w s'. isIdent w \<and> s = w @ s' \<and> (s1, c1) \<in> set (ms n X s' c)"
    by (intro exI [of _ "x # u"] exI [of _ s']) (simp add: isIdent_def)
next
  assume "\<exists>w s'. isIdent w \<and> s = w @ s' \<and> (s1, c1) \<in> set (ms n X s' c)"
  then obtain w s' where w: "isIdent w" "s = w @ s'" "(s1, c1) \<in> set (ms n X s' c)" by blast
  then obtain x u where "w = x # u" "accepts identStart x" "\<forall>ch \<in> set u. accepts identRest ch"
    by (cases w) (auto simp: isIdent_def)
  with w have "s = (x # u) @ s'" "accepts identStart x" "\<forall>ch \<in> set u. accepts identRest ch"
    "(s1, c1) \<in> set (ms n X s' c)" by simp_all
  then show "(s1, c1) \<in> set (ms n (Seq identStart (Seq (Star identRest) X)) s c)"
    by (auto simp: in_ms_Seq in_ms_atomic in_ms_Star_atomic)
qed

lemma in_ms_nameRe:
  "(s1, c1) \<in> set (ms n nameRe s c) \<longleftrightarrow> (\<exists>w. isTypeName w \<and> s = w @ s1 \<and> c1 = c)"
proof
  assume "(s1, c1) \<in> set (ms n nameRe s c)"
  then obtain w s' where w: "isIdent w" "s = w @ s'"
    and r: "(s1, c1) \<in> set (ms n (Seq (Opt (Cat [Chr (CHR ''.''), identStart, Star identRest])) Eps) s' c)"
    by (auto simp: nameRe_def in_ms_ident)
  from r have "(s1, c1) = (s', c) \<or>
    (s1, c1) \<in> set (ms n (Seq (Chr (CHR ''.'')) (Seq identStart (Seq (Star identRest) Eps))) s' c)"
    by (auto simp: ms_Seq_Eps Opt_def)
  then show "\<exists>w. isTypeName w \<and> s = w @ s1 \<and> c1 = c"
  proof
    assume "(s1, c1) = (s', c)"
    with w show ?thesis by (auto simp: isTypeName_iff)
  next
    assume "(s1, c1) \<in> set (ms n (Seq (Chr (CHR ''.'')) (Seq identStart (Seq (Star identRest) Eps))) s' c)"
    then obtain b where "isIdent b" "s' = CHR ''.'' # b @ s1" "c1 = c"
      by (auto simp: in_ms_Seq_Chr in_ms_ident)
    with w show ?thesis
      by (intro exI [of _ "w @ CHR ''.'' # b"]) (auto simp: isTypeName_iff)
  qed
next
  assume "\<exists>w. isTypeName w \<and> s = w @ s1 \<and> c1 = c"
  then obtain w where w: "isTypeName w" "s = w @ s1" "c1 = c" by blast
  from w(1) show "(s1, c1) \<in> set (ms n nameRe s c)" unfolding isTypeName_iff
  proof
    assume "isIdent w"
    then show ?thesis using w(2,3)
      by (auto simp: nameRe_def in_ms_ident ms_Seq_Eps Opt_def)
  next
    assume "\<exists>a b. w = a @ CHR ''.'' # b \<and> isIdent a \<and> isIdent b"
    then obtain a b where ab: "w = a @ CHR ''.'' # b" "isIdent a" "isIdent b" by blast
    have "(s1, c1) \<in> set (ms n (Seq (Chr (CHR ''.'')) (Seq identStart (Seq (Star identRest) Eps))) (CHR ''.'' # b @ s1) c)"
      using ab(3) w(3) by (auto simp: in_ms_Seq_Chr in_ms_ident)
    then have "(s1, c1) \<in> set (ms n (Seq (Opt (Cat [Chr (CHR ''.''), identStart, Star identRest])) Eps) (CHR ''.'' # b @ s1) c)"
      by (simp add: ms_Seq_Eps Opt_def)
    then show ?thesis using ab(1,2) w(2)
      unfolding nameRe_def Cat.simps in_ms_ident by (intro exI [of _ a] exI [of _ "CHR ''.'' # b @ s1"]) simp
  qed
qed

lemma typeRe_alt: "typeRe = Seq (Group 1 prefixRe) (Seq (Group 2 nameRe) (Seq Eol Eps))"
  by (simp add: typeRe_def)

lemma prefixRe_sound:
  assumes "(s1, c1) \<in> set (ms n prefixRe s c)"
  shows "\<exists>g. s = g @ s1 \<and> c1 = c \<and> (\<forall>ch \<in> set g. ch = CHR ''&'' \<or> isSpace ch)"
proof -
  from assms obtain s2 c2 where a: "(s2, c2) \<in> set (ms n (Opt (Chr (CHR ''&''))) s c)"
    and b: "(s1, c1) \<in> set (ms n (Star (Set [Sp])) s2 c2)"
    by (auto simp: prefixRe_def in_ms_Seq ms_Seq_Eps)
  from b obtain u where u: "s2 = u @ s1" "\<forall>ch \<in> set u. isSpace ch" "c1 = c2"
    by (auto simp: in_ms_Star_atomic)
  from a have "(s2, c2) = (s, c) \<or> (s = CHR ''&'' # s2 \<and> c2 = c)"
    by (auto simp: Opt_def in_ms_Chr)
  then show ?thesis
  proof
    assume "(s2, c2) = (s, c)"
    with u show ?thesis by (intro exI [of _ u]) auto
  next
    assume "s = CHR ''&'' # s2 \<and> c2 = c"
    with u show ?thesis by (intro exI [of _ "CHR ''&'' # u"]) auto
  qed
qed

lemma prefixRe_empty: "(s, c) \<in> set (ms n prefixRe s c)"
proof -
  have "(s, c) \<in> set (ms n (Opt (Chr (CHR ''&''))) s c)" by (simp add: Opt_def)
  moreover have "(s, c) \<in> set (ms n (Star (Set [Sp])) s c)" by (simp add: in_ms_Star_atomic)
  ultimately show ?thesis by (auto simp: prefixRe_def in_ms_Seq ms_Seq_Eps)
qed

lemma typeRe_sound:
  assumes "(s1, c1) \<in> set (ms n typeRe s c)"
  shows "s1 = [] \<and> (\<exists>g1 g2. s = g1 @ g2 \<and> c1 = c(1 \<mapsto> g1, 2 \<mapsto> g2) \<and>
     (\<forall>ch \<in> set g1. ch = CHR ''&'' \<or> isSpace ch) \<and> isTypeName g2)"
proof -
  from assms obtain s2 c2 s3 c3 where a: "(s2, c2) \<in> set (ms n (Group 1 prefixRe) s c)"
    and b: "(s3, c3) \<in> set (ms n (Group 2 nameRe) s2 c2)"
    and e: "(s1, c1) \<in> set (ms n Eol s3 c3)"
    unfolding typeRe_alt by (auto simp: in_ms_Seq ms_Seq_Eps)
  from a obtain c' where a': "(s2, c') \<in> set (ms n prefixRe s c)"
    "c2 = c'(1 \<mapsto> take (length s - length s2) s)" by (auto simp: in_ms_Group)
  from prefixRe_sound [OF a'(1)] obtain g1 where g1': "s = g1 @ s2" "c' = c"
    "\<forall>ch \<in> set g1. ch = CHR ''&'' \<or> isSpace ch" by blast
  from a'(2) g1' have g1: "s = g1 @ s2" "c2 = c(1 \<mapsto> g1)" "\<forall>ch \<in> set g1. ch = CHR ''&'' \<or> isSpace ch"
    by simp_all
  from b obtain g2 where g2: "s2 = g2 @ s3" "c3 = c2(2 \<mapsto> g2)" "isTypeName g2"
    by (auto simp: in_ms_Group in_ms_nameRe)
  from e have e': "s3 = []" "s1 = []" "c1 = c3" by (auto split: if_splits)
  have "s = g1 @ g2" using g1(1) g2(1) e'(1) by simp
  moreover have "c1 = c(1 \<mapsto> g1, 2 \<mapsto> g2)" using e'(3) g2(2) g1(2) by simp
  ultimately show ?thesis using e'(2) g1(3) g2(3) by blast
qed

lemma typeRe_complete:
  assumes "isTypeName w"
  shows "([], c(1 \<mapsto> [], 2 \<mapsto> w)) \<in> set (ms n typeRe w c)"
proof -
  have "(w, c(1 \<mapsto> [])) \<in> set (ms n (Group 1 prefixRe) w c)"
    using prefixRe_empty [of w c n] by (auto simp: in_ms_Group)
  moreover have "([], c(1 \<mapsto> [], 2 \<mapsto> w)) \<in> set (ms n (Group 2 nameRe) w (c(1 \<mapsto> [])))"
    using assms by (auto simp: in_ms_Group in_ms_nameRe)
  moreover have "([], c(1 \<mapsto> [], 2 \<mapsto> w)) \<in> set (ms n (Seq Eol Eps) [] (c(1 \<mapsto> [], 2 \<mapsto> w)))"
    by (simp add: ms_Seq_Eps)
  ultimately show ?thesis unfolding typeRe_alt in_ms_Seq by blast
qed

lemma isIdent_hd: "isIdent w \<Longrightarrow> w \<noteq> [] \<and> accepts identStart (hd w)"
  by (cases w) (auto simp: isIdent_def)

lemma isTypeName_hd: "isTypeName w \<Longrightarrow> w \<noteq> [] \<and> accepts identStart (hd w)"
  using isIdent_hd by (fastforce simp: isTypeName_iff)

text \<open>The second group of the match is the longest suffix of the text that is a name or
  a dotted pair of names.\<close>

lemma rmatch_typeRe:
  assumes "rmatch typeRe s = Some m"
  shows "\<exists>v g1 g2. s = v @ g1 @ g2 \<and> m_groups m 1 = Some g1 \<and> m_groups m 2 = Some g2 \<and>
     m_whole m = g1 @ g2 \<and> isTypeName g2 \<and>
     (\<forall>v' w. s = v' @ w \<and> isTypeName w \<longrightarrow> length w \<le> length g2)"
proof -
  from rmatch_Some [OF assms] obtain j s1 c1 rest where
    j: "j \<le> length s" "ms (length s) typeRe (drop j s) Map.empty = (s1, c1) # rest"
      "\<forall>j' < j. ms (length s) typeRe (drop j' s) Map.empty = []"
      "m_whole m = take (length s - j - length s1) (drop j s)" "m_groups m = c1" by blast
  from j(2) have "(s1, c1) \<in> set (ms (length s) typeRe (drop j s) Map.empty)" by simp
  from typeRe_sound [OF this] obtain g1 g2 where
    g: "s1 = []" "drop j s = g1 @ g2" "c1 = Map.empty(1 \<mapsto> g1, 2 \<mapsto> g2)"
      "\<forall>ch \<in> set g1. ch = CHR ''&'' \<or> isSpace ch" "isTypeName g2" by blast
  have s: "s = take j s @ g1 @ g2" using g(2) by (metis append_take_drop_id)
  have len: "length s = j + length g1 + length g2"
    using g(2) j(1) by (metis add.assoc length_append length_drop le_add_diff_inverse)
  have max: "length w \<le> length g2" if w: "s = v' @ w" "isTypeName w" for v' w
  proof (rule ccontr)
    assume "\<not> length w \<le> length g2"
    moreover have "length s = length v' + length w" using w(1) by simp
    ultimately have lv: "length v' < j + length g1" using len by arith
    have dw: "drop (length v') s = w" using w(1) by simp
    show False
    proof (cases "length v' < j")
      case True
      have "ms (length s) typeRe w Map.empty \<noteq> []"
        using typeRe_complete [OF w(2), of Map.empty "length s"] by auto
      with j(3) True dw show False by auto
    next
      case False
      then have k: "j \<le> length v'" by simp
      have "w \<noteq> []" using isTypeName_hd [OF w(2)] by simp
      then have "hd w = s ! length v'" using w(1) by (simp add: nth_append hd_conv_nth)
      also have "\<dots> = (g1 @ g2) ! (length v' - j)"
        using k j(1) g(2) by (metis le_add_diff_inverse nth_drop)
      finally have "hd w = (g1 @ g2) ! (length v' - j)" .
      moreover have "length v' - j < length g1" using lv k by arith
      ultimately have "hd w = g1 ! (length v' - j)" by (simp add: nth_append)
      with \<open>length v' - j < length g1\<close> have "hd w \<in> set g1" by simp
      with g(4) have "hd w = CHR ''&'' \<or> isSpace (hd w)" by blast
      with isTypeName_hd [OF w(2)] identStart_chars [of "hd w"] show False by blast
    qed
  qed
  have "m_whole m = g1 @ g2" using j(4) g(1,2) len by simp
  moreover have "m_groups m 1 = Some g1" "m_groups m 2 = Some g2" using g(3) j(5) by simp_all
  moreover have "\<forall>v' w. s = v' @ w \<and> isTypeName w \<longrightarrow> length w \<le> length g2" using max by blast
  ultimately show ?thesis using s g(5) by blast
qed

lemma isIdent_chars: "isIdent a \<Longrightarrow> ch \<in> set a \<Longrightarrow> accepts identRest ch"
  using identStart_chars by (cases a) (auto simp: isIdent_def)

lemma isIdent_no_dot: "isIdent a \<Longrightarrow> CHR ''.'' \<notin> set a"
  using isIdent_chars identRest_chars by blast

lemma rmatch_typeRe_exists:
  assumes "s = v @ w" "isTypeName w"
  shows "rmatch typeRe s \<noteq> None"
proof
  assume "rmatch typeRe s = None"
  then have "searchFrom (length s) typeRe 0 s = None" by (simp add: rmatch_def)
  from searchFrom_None [OF this, of "length v"] assms(1)
  have "ms (length s) typeRe w Map.empty = []" by simp
  with typeRe_complete [OF assms(2), of Map.empty "length s"] show False by auto
qed

lemma qualified_suffix_short:
  assumes "isTypeName w" and "pre @ q @ CHR ''.'' # t = v @ w" and "isIdent t" and "q \<noteq> []"
    and "\<forall>ch \<in> set q. \<not> accepts identStart ch" and "pre = [] \<or> \<not> accepts identRest (last pre)"
  shows "length w \<le> length t"
proof (rule ccontr)
  assume "\<not> length w \<le> length t"
  then have l: "length (CHR ''.'' # t) \<le> length w" by simp
  have e: "(pre @ q) @ (CHR ''.'' # t) = v @ w" using assms(2) by simp
  from iffD1 [OF append_eq_append_conv2 e]
  obtain us where "(pre @ q = v @ us \<and> us @ CHR ''.'' # t = w) \<or> ((pre @ q) @ us = v \<and> CHR ''.'' # t = us @ w)"
    by blast
  then obtain x where x: "pre @ q = v @ x" "w = x @ CHR ''.'' # t"
  proof
    assume "pre @ q = v @ us \<and> us @ CHR ''.'' # t = w"
    then show ?thesis using that by blast
  next
    assume a: "(pre @ q) @ us = v \<and> CHR ''.'' # t = us @ w"
    then have "length (CHR ''.'' # t) = length us + length w" by (metis length_append)
    with l have "us = []" by simp
    with a show ?thesis using that [of "[]"] by simp
  qed
  have nd: "CHR ''.'' \<notin> set t" using isIdent_no_dot [OF assms(3)] .
  have "CHR ''.'' \<in> set w" using x(2) by simp
  then have "\<not> isIdent w" using isIdent_no_dot by blast
  with assms(1) obtain a b where ab: "w = a @ CHR ''.'' # b" "isIdent a" "isIdent b"
    by (auto simp: isTypeName_iff)
  have "a @ CHR ''.'' # b = x @ CHR ''.'' # t" using ab(1) x(2) by simp
  then have "a = x" using append_Cons_eq_iff [of "CHR ''.''" a b x t] isIdent_no_dot [OF ab(2)] isIdent_no_dot [OF ab(3)]
    by simp
  then have ix: "isIdent x" using ab(2) by simp
  then have xne: "x \<noteq> []" and hx: "accepts identStart (hd x)" using isIdent_hd by auto
  from iffD1 [OF append_eq_append_conv2 x(1)]
  obtain ws where "(pre = v @ ws \<and> ws @ q = x) \<or> (pre @ ws = v \<and> q = ws @ x)"
    by blast
  then show False
  proof
    assume c: "pre = v @ ws \<and> ws @ q = x"
    show False
    proof (cases "ws = []")
      case True
      with c have "x = q" by simp
      with hx assms(4,5) show False by (metis hd_in_set)
    next
      case False
      with c have "last pre = last ws" "pre \<noteq> []" by simp_all
      moreover have "last ws \<in> set x" using c False by (metis last_in_set Un_iff set_append)
      ultimately have "accepts identRest (last pre)" "pre \<noteq> []" using isIdent_chars [OF ix] by simp_all
      with assms(6) show False by blast
    qed
  next
    assume c: "pre @ ws = v \<and> q = ws @ x"
    then have "hd x \<in> set q" using xne by simp
    with hx assms(5) show False by blast
  qed
qed

lemma suffix_longer:
  assumes "v @ w = v' @ w'" and "length w \<le> length w'"
  shows "\<exists>u. w' = u @ w"
proof -
  from iffD1 [OF append_eq_append_conv2 assms(1)]
  obtain us where "(v = v' @ us \<and> us @ w = w') \<or> (v @ us = v' \<and> w = us @ w')" by blast
  then show ?thesis
  proof
    assume "v = v' @ us \<and> us @ w = w'"
    then show ?thesis by blast
  next
    assume a: "v @ us = v' \<and> w = us @ w'"
    then have "length w = length us + length w'" by (metis length_append)
    with assms(2) have "us = []" by simp
    with a show ?thesis by simp
  qed
qed

lemma suffix_same_length:
  assumes "v @ w = v' @ w'" and "length w = length w'"
  shows "w = w'"
proof -
  from suffix_longer [OF assms(1)] assms(2) obtain u where u: "w' = u @ w" by auto
  with assms(2) have "u = []" by simp
  with u show ?thesis by simp
qed

lemma findStructLiteralContext_typeName:
  assumes "findOpenBrace s offset 0 = Some ob"
    and "rmatch typeRe (trimEnd (substring s 0 ob)) = Some m"
    and "m_groups m 1 = Some g1" and "m_groups m 2 = Some g2"
  shows "\<exists>ctx. findStructLiteralContext s offset = Inr (Some ctx) \<and> typeName ctx = g2"
  using assms by (simp add: findStructLiteralContext_def)

text \<open>
  Claim C1, as the code has it. \<open>typeName\<close> is the whole second group of the type
  pattern, the longest type name that ends the text before the brace. Let that text end
  with \<open>q.t\<close>, \<open>t\<close> an identifier of the pattern. When \<open>q\<close> is an identifier of the
  pattern too (it begins with an uppercase letter or an underscore), the pattern matches
  the qualified form and \<open>typeName\<close> ends with \<open>q.t\<close>: the qualifier is kept. When \<open>q\<close>
  is not empty, holds no uppercase letter and no underscore and is not preceded by a
  letter, digit or underscore (a Go package name in lowercase), \<open>typeName\<close> is \<open>t\<close>
  alone.
\<close>

theorem typeName_of_qualified_name:
  assumes "findOpenBrace s offset 0 = Some ob"
    and "trimEnd (substring s 0 ob) = pre @ q @ CHR ''.'' # t"
    and "isIdent t"
  shows "(isIdent q \<longrightarrow>
           (\<exists>ctx u. findStructLiteralContext s offset = Inr (Some ctx) \<and>
              typeName ctx = u @ q @ CHR ''.'' # t \<and> isIdent (u @ q)))
       \<and> (q \<noteq> [] \<and> (\<forall>ch \<in> set q. \<not> accepts identStart ch) \<and> (pre = [] \<or> \<not> accepts identRest (last pre)) \<longrightarrow>
           (\<exists>ctx. findStructLiteralContext s offset = Inr (Some ctx) \<and> typeName ctx = t))"
proof -
  let ?tb = "trimEnd (substring s 0 ob)"
  have tn: "isTypeName t" using assms(3) by (simp add: isTypeName_iff)
  have "?tb = (pre @ q @ [CHR ''.'']) @ t" using assms(2) by simp
  from rmatch_typeRe_exists [OF this tn] obtain m where m: "rmatch typeRe ?tb = Some m" by blast
  from rmatch_typeRe [OF m] obtain v g1 g2 where
    g: "?tb = v @ g1 @ g2" "m_groups m 1 = Some g1" "m_groups m 2 = Some g2" "isTypeName g2"
      "\<forall>v' w. ?tb = v' @ w \<and> isTypeName w \<longrightarrow> length w \<le> length g2" by blast
  from findStructLiteralContext_typeName [OF assms(1) m g(2,3)] obtain ctx where
    ctx: "findStructLiteralContext s offset = Inr (Some ctx)" "typeName ctx = g2" by blast
  have e1: "(v @ g1) @ g2 = (pre @ q @ [CHR ''.'']) @ t" using g(1) assms(2) by simp
  have e2: "pre @ (q @ CHR ''.'' # t) = (v @ g1) @ g2" using g(1) assms(2) by simp
  have p1: "\<exists>ctx u. findStructLiteralContext s offset = Inr (Some ctx) \<and>
      typeName ctx = u @ q @ CHR ''.'' # t \<and> isIdent (u @ q)" if q: "isIdent q"
  proof -
    have qt: "isTypeName (q @ CHR ''.'' # t)" using q assms(3) by (auto simp: isTypeName_iff)
    have "?tb = pre @ (q @ CHR ''.'' # t)" using assms(2) by simp
    with g(5) qt have "length (q @ CHR ''.'' # t) \<le> length g2" by blast
    from suffix_longer [OF e2 this] obtain u where u: "g2 = u @ q @ CHR ''.'' # t" by auto
    have "CHR ''.'' \<in> set g2" using u by simp
    then have "\<not> isIdent g2" using isIdent_no_dot by blast
    with g(4) obtain a b where ab: "g2 = a @ CHR ''.'' # b" "isIdent a" "isIdent b"
      by (auto simp: isTypeName_iff)
    have "a @ CHR ''.'' # b = (u @ q) @ CHR ''.'' # t" using ab(1) u by simp
    then have "a = u @ q"
      using append_Cons_eq_iff [of "CHR ''.''" a b "u @ q" t] isIdent_no_dot [OF ab(2)] isIdent_no_dot [OF ab(3)]
      by simp
    with ab(2) u ctx show ?thesis by auto
  qed
  have p2: "\<exists>ctx. findStructLiteralContext s offset = Inr (Some ctx) \<and> typeName ctx = t"
    if q: "q \<noteq> []" "\<forall>ch \<in> set q. \<not> accepts identStart ch" "pre = [] \<or> \<not> accepts identRest (last pre)"
  proof -
    have "?tb = (pre @ q @ [CHR ''.'']) @ t" using assms(2) by simp
    with g(5) tn have l1: "length t \<le> length g2" by blast
    have "pre @ q @ CHR ''.'' # t = (v @ g1) @ g2" using g(1) assms(2) by simp
    from qualified_suffix_short [OF g(4) this assms(3) q] have "length g2 \<le> length t" .
    with l1 have "length g2 = length t" by simp
    from suffix_same_length [OF e1 this] ctx show ?thesis by auto
  qed
  from p1 p2 show ?thesis by blast
qed

text \<open>The claim as stated fails where the qualifier begins with an uppercase letter:
  \<^verbatim>\<open>c := Pkg.Client{\<close> gives the type name \<^verbatim>\<open>Pkg.Client\<close>, not \<^verbatim>\<open>Client\<close>.\<close>

theorem typeName_keeps_uppercase_qualifier:
  "findStructLiteralContext ''c := Pkg.Client{'' 16 =
     Inr (Some \<lparr>typeName = ''Pkg.Client'', typePosition = 5, activeFieldIndex = 0\<rparr>)"
  by code_simp

theorem typeName_of_qualified_name_witness:
  "(\<exists>ctx u. findStructLiteralContext ''c := Pkg.Client{'' 16 = Inr (Some ctx) \<and>
        typeName ctx = u @ ''Pkg'' @ CHR ''.'' # ''Client'' \<and> isIdent (u @ ''Pkg''))
   \<and> (\<exists>ctx. findStructLiteralContext ''c := http.Client{'' 17 = Inr (Some ctx) \<and> typeName ctx = ''Client'')
   \<and> findStructLiteralContext ''c := http.Client{'' 17 =
       Inr (Some \<lparr>typeName = ''Client'', typePosition = 10, activeFieldIndex = 0\<rparr>)"
proof -
  have a1: "findOpenBrace ''c := Pkg.Client{'' 16 0 = Some 15" by code_simp
  have a2: "trimEnd (substring ''c := Pkg.Client{'' 0 15) = ''c := '' @ ''Pkg'' @ CHR ''.'' # ''Client''" by code_simp
  have b1: "findOpenBrace ''c := http.Client{'' 17 0 = Some 16" by code_simp
  have b2: "trimEnd (substring ''c := http.Client{'' 0 16) = ''c := '' @ ''http'' @ CHR ''.'' # ''Client''" by code_simp
  have i: "isIdent ''Client''" by code_simp
  have j: "isIdent ''Pkg''" by code_simp
  have k: "''http'' \<noteq> [] \<and> (\<forall>ch \<in> set ''http''. \<not> accepts identStart ch) \<and>
    (''c := '' = [] \<or> \<not> accepts identRest (last ''c := ''))" by code_simp
  have e: "findStructLiteralContext ''c := http.Client{'' 17 =
       Inr (Some \<lparr>typeName = ''Client'', typePosition = 10, activeFieldIndex = 0\<rparr>)" by code_simp
  from typeName_of_qualified_name [OF a1 a2 i] j have p: "\<exists>ctx u. findStructLiteralContext ''c := Pkg.Client{'' 16 = Inr (Some ctx) \<and>
        typeName ctx = u @ ''Pkg'' @ CHR ''.'' # ''Client'' \<and> isIdent (u @ ''Pkg'')" by blast
  from typeName_of_qualified_name [OF b1 b2 i] k have q: "\<exists>ctx. findStructLiteralContext ''c := http.Client{'' 17 = Inr (Some ctx) \<and>
        typeName ctx = ''Client''" by blast
  from p q e show ?thesis by blast
qed

section \<open>parseStructFromHover: the fence and the documentation\<close>

lemma indexOf_Some:
  "indexOf pat s = Some k \<longleftrightarrow>
     k \<le> length s \<and> startsWith (drop k s) pat \<and> (\<forall>i < k. \<not> startsWith (drop i s) pat)"
proof (induction s arbitrary: k)
  case Nil
  then show ?case by auto
next
  case (Cons x xs)
  show ?case
  proof (cases "startsWith (x # xs) pat")
    case True
    then show ?thesis by (cases k) auto
  next
    case False
    show ?thesis
    proof (cases k)
      case 0
      then show ?thesis using False by simp
    next
      case (Suc k')
      have "(\<forall>i < Suc k'. \<not> startsWith (drop i (x # xs)) pat) \<longleftrightarrow> (\<forall>i < k'. \<not> startsWith (drop i xs) pat)"
      proof
        assume a: "\<forall>i < Suc k'. \<not> startsWith (drop i (x # xs)) pat"
        show "\<forall>i < k'. \<not> startsWith (drop i xs) pat"
        proof (intro allI impI)
          fix i assume "i < k'"
          then have "Suc i < Suc k'" by simp
          with a have "\<not> startsWith (drop (Suc i) (x # xs)) pat" by blast
          then show "\<not> startsWith (drop i xs) pat" by simp
        qed
      next
        assume a: "\<forall>i < k'. \<not> startsWith (drop i xs) pat"
        show "\<forall>i < Suc k'. \<not> startsWith (drop i (x # xs)) pat"
        proof (intro allI impI)
          fix i assume "i < Suc k'"
          then show "\<not> startsWith (drop i (x # xs)) pat" using False a by (cases i) auto
        qed
      qed
      then show ?thesis using False Suc Cons.IH [of k'] by auto
    qed
  qed
qed

lemma indexOf_None:
  "indexOf pat s = None \<longleftrightarrow> (\<forall>i \<le> length s. \<not> startsWith (drop i s) pat)"
proof (induction s)
  case Nil
  then show ?case by simp
next
  case (Cons x xs)
  have "(\<forall>i \<le> Suc (length xs). \<not> startsWith (drop i (x # xs)) pat) \<longleftrightarrow>
    \<not> startsWith (x # xs) pat \<and> (\<forall>i \<le> length xs. \<not> startsWith (drop i xs) pat)"
  proof
    assume a: "\<forall>i \<le> Suc (length xs). \<not> startsWith (drop i (x # xs)) pat"
    have "\<not> startsWith (x # xs) pat" using a [rule_format, of 0] by simp
    moreover have "\<forall>i \<le> length xs. \<not> startsWith (drop i xs) pat"
    proof (intro allI impI)
      fix i assume "i \<le> length xs"
      then show "\<not> startsWith (drop i xs) pat" using a [rule_format, of "Suc i"] by simp
    qed
    ultimately show "\<not> startsWith (x # xs) pat \<and> (\<forall>i \<le> length xs. \<not> startsWith (drop i xs) pat)" by blast
  next
    assume a: "\<not> startsWith (x # xs) pat \<and> (\<forall>i \<le> length xs. \<not> startsWith (drop i xs) pat)"
    show "\<forall>i \<le> Suc (length xs). \<not> startsWith (drop i (x # xs)) pat"
    proof (intro allI impI)
      fix i assume "i \<le> Suc (length xs)"
      then show "\<not> startsWith (drop i (x # xs)) pat" using a by (cases i) auto
    qed
  qed
  then show ?case using Cons by auto
qed

lemma indexOf_drop_None_le:
  assumes "indexOf pat (drop a s) = None" and "a \<le> b" and "b \<le> length s"
  shows "indexOf pat (drop b s) = None"
proof -
  have "\<not> startsWith (drop i (drop b s)) pat" if "i \<le> length (drop b s)" for i
  proof -
    have "drop i (drop b s) = drop (i + (b - a)) (drop a s)" using assms(2) by (simp add: add.commute)
    moreover have "i + (b - a) \<le> length (drop a s)" using that assms(2,3) by simp
    ultimately show ?thesis using assms(1) by (simp add: indexOf_None del: drop_drop)
  qed
  then show ?thesis by (simp add: indexOf_None)
qed

lemma indexOf_drop_None:
  assumes "indexOf pat (drop a s) = None" and "a \<le> b"
  shows "indexOf pat (drop b s) = None"
proof (cases "b \<le> length s")
  case True
  then show ?thesis using indexOf_drop_None_le [OF assms] by simp
next
  case False
  then have b: "drop b s = drop (length s) s" by simp
  show ?thesis
  proof (cases "a \<le> length s")
    case True
    from indexOf_drop_None_le [OF assms(1) True] show ?thesis using b by simp
  next
    case False
    then have "drop a s = drop b s" using assms(2) by simp
    with assms(1) show ?thesis by simp
  qed
qed

lemma ms_Str_startsWith:
  "ms n (Str lit) s c = (if startsWith s lit then [(drop (length lit) s, c)] else [])"
proof -
  have "length lit \<le> length s" if "take (length lit) s = lit"
  proof -
    from that have "length (take (length lit) s) = length lit" by simp
    then show ?thesis by simp
  qed
  then show ?thesis by (auto simp: ms_Str startsWith_def)
qed

lemma ms_Seq_Str:
  "ms n (Seq (Str lit) X) s c = (if startsWith s lit then ms n X (drop (length lit) s) c else [])"
  by (simp add: ms.simps(8) ms_Str_startsWith)

lemma ms_Seq_Bol: "ms n (Seq Bol X) s c = (if length s = n then ms n X s c else [])"
  by (simp add: ms.simps(8))

lemma lazy_until_str_hd:
  assumes "ms n (Seq (Group k (Lazy anyChar)) (Seq (Str lit) Eps)) s c = p # rest"
  shows "\<exists>j. indexOf lit s = Some j \<and> p = (drop (j + length lit) s, c(k \<mapsto> take j s))"
proof -
  let ?f = "\<lambda>j. ms n (Seq (Str lit) Eps) (drop j s) (c(k \<mapsto> take j s))"
  have f: "?f j = (if startsWith (drop j s) lit then [(drop (j + length lit) s, c(k \<mapsto> take j s))] else [])" for j
    by (simp add: ms_Seq_Eps ms_Str_startsWith add.commute)
  from assms have "concat (map ?f [0..<Suc (length s)]) = p # rest"
    by (simp only: ms_lazy_any)
  from concat_map_upt_first [OF this] obtain j rest' where
    j: "j < Suc (length s)" "\<forall>i < j. ?f i = []" "?f j = p # rest'" by blast
  from j(3) have a: "startsWith (drop j s) lit" "p = (drop (j + length lit) s, c(k \<mapsto> take j s))"
    unfolding f by (auto split: if_splits)
  from j(2) have b: "\<forall>i < j. \<not> startsWith (drop i s) lit" unfolding f by (auto split: if_splits)
  from a(1) b j(1) have "indexOf lit s = Some j" by (simp add: indexOf_Some)
  with a(2) show ?thesis by blast
qed

lemma lazy_until_str_empty:
  "ms n (Seq (Group k (Lazy anyChar)) (Seq (Str lit) Eps)) s c = [] \<longleftrightarrow> indexOf lit s = None"
proof -
  let ?f = "\<lambda>j. ms n (Seq (Str lit) Eps) (drop j s) (c(k \<mapsto> take j s))"
  have f: "?f j = [] \<longleftrightarrow> \<not> startsWith (drop j s) lit" for j
    by (simp add: ms_Seq_Eps ms_Str_startsWith)
  have "ms n (Seq (Group k (Lazy anyChar)) (Seq (Str lit) Eps)) s c = [] \<longleftrightarrow> (\<forall>j < Suc (length s). ?f j = [])"
    by (simp only: ms_lazy_any concat_map_upt_empty)
  also have "\<dots> \<longleftrightarrow> (\<forall>j \<le> length s. \<not> startsWith (drop j s) lit)"
    by (simp only: f less_Suc_eq_le)
  finally show ?thesis by (simp only: indexOf_None)
qed

lemma docRe_alt: "docRe = Seq Bol (Seq (Group 1 (Lazy anyChar)) (Seq (Str ticks) Eps))"
  by (simp add: docRe_def ticks_def)

lemma codeBlockRe_alt:
  "codeBlockRe = Seq (Str fenceOpen) (Seq (Group 1 (Lazy anyChar)) (Seq (Str fenceClose) Eps))"
  by (simp add: codeBlockRe_def fenceOpen_def fenceClose_def ticks_def)

lemma documentationOf_eq: "documentationOf content = Inr (leadingText content)"
proof (cases "rmatch docRe content")
  case None
  then have "searchFrom (length content) docRe 0 content = None" by (simp add: rmatch_def)
  from searchFrom_None [OF this, of 0] have "ms (length content) docRe content Map.empty = []" by simp
  then have "indexOf ticks content = None"
    by (simp add: docRe_alt ms_Seq_Bol lazy_until_str_empty)
  then show ?thesis using None by (simp add: documentationOf_def leadingText_def)
next
  case (Some m)
  from rmatch_Some [OF Some] obtain j s1 c1 rest where
    j: "j \<le> length content" "ms (length content) docRe (drop j content) Map.empty = (s1, c1) # rest"
      "m_groups m = c1" by blast
  from j(2) have l: "length (drop j content) = length content"
    unfolding docRe_alt ms_Seq_Bol by (auto split: if_splits)
  with j(1) have "j = 0" by simp
  with j(2) l have "ms (length content) (Seq (Group 1 (Lazy anyChar)) (Seq (Str ticks) Eps)) content Map.empty = (s1, c1) # rest"
    unfolding docRe_alt ms_Seq_Bol by simp
  from lazy_until_str_hd [OF this] obtain i where
    i: "indexOf ticks content = Some i" "c1 = Map.empty(1 \<mapsto> take i content)" by auto
  then show ?thesis using Some j(3) by (simp add: documentationOf_def leadingText_def)
qed

lemma codeContent_eq:
  "codeContent content = Some (case fenceInterior content of None \<Rightarrow> content | Some inner \<Rightarrow> inner)"
proof (cases "rmatch codeBlockRe content")
  case None
  then have n: "searchFrom (length content) codeBlockRe 0 content = None" by (simp add: rmatch_def)
  have "fenceInterior content = None"
  proof (cases "indexOf fenceOpen content")
    case None
    then show ?thesis by (simp add: fenceInterior_def)
  next
    case (Some i)
    then have i: "i \<le> length content" "startsWith (drop i content) fenceOpen" by (simp_all add: indexOf_Some)
    from searchFrom_None [OF n i(1)] have "ms (length content) codeBlockRe (drop i content) Map.empty = []" .
    with i(2) have "indexOf fenceClose (drop (i + length fenceOpen) content) = None"
      by (simp add: codeBlockRe_alt ms_Seq_Str lazy_until_str_empty add.commute)
    with Some show ?thesis by (simp add: fenceInterior_def)
  qed
  with None show ?thesis by (simp add: codeContent_def)
next
  case (Some m)
  from rmatch_Some [OF Some] obtain j s1 c1 rest where
    j: "j \<le> length content" "ms (length content) codeBlockRe (drop j content) Map.empty = (s1, c1) # rest"
      "\<forall>j' < j. ms (length content) codeBlockRe (drop j' content) Map.empty = []"
      "m_groups m = c1" by blast
  from j(2) have sw: "startsWith (drop j content) fenceOpen"
    and t: "ms (length content) (Seq (Group 1 (Lazy anyChar)) (Seq (Str fenceClose) Eps))
              (drop (j + length fenceOpen) content) Map.empty = (s1, c1) # rest"
    unfolding codeBlockRe_alt ms_Seq_Str by (auto simp: add.commute split: if_splits)
  from lazy_until_str_hd [OF t] obtain k where
    k: "indexOf fenceClose (drop (j + length fenceOpen) content) = Some k"
      "c1 = Map.empty(1 \<mapsto> take k (drop (j + length fenceOpen) content))" by auto
  have "\<not> startsWith (drop i content) fenceOpen" if "i < j" for i
  proof
    assume a: "startsWith (drop i content) fenceOpen"
    from j(3) that have "ms (length content) codeBlockRe (drop i content) Map.empty = []" by blast
    with a have "indexOf fenceClose (drop (i + length fenceOpen) content) = None"
      by (simp add: codeBlockRe_alt ms_Seq_Str lazy_until_str_empty add.commute)
    from indexOf_drop_None [OF this, of "j + length fenceOpen"] that k(1) show False by simp
  qed
  with sw j(1) have "indexOf fenceOpen content = Some j" by (simp add: indexOf_Some)
  with k have "fenceInterior content = Some (take k (drop (j + length fenceOpen) content))"
    "m_groups m 1 = Some (take k (drop (j + length fenceOpen) content))"
    using j(4) by (simp_all add: fenceInterior_def)
  with Some show ?thesis by (simp add: codeContent_def)
qed

lemma startsWith_append: "startsWith s (a @ b) \<Longrightarrow> startsWith s a"
proof -
  assume "startsWith s (a @ b)"
  then have "take (length a + length b) s = a @ b" by (simp add: startsWith_def)
  then have "take (length a) (take (length a + length b) s) = take (length a) (a @ b)" by simp
  then show ?thesis by (simp add: startsWith_def min_def)
qed

lemma no_ticks_no_fence: "indexOf ticks content = None \<Longrightarrow> fenceInterior content = None"
proof -
  assume "indexOf ticks content = None"
  then have "\<forall>i \<le> length content. \<not> startsWith (drop i content) fenceOpen"
    unfolding indexOf_None fenceOpen_def using startsWith_append by blast
  then have "indexOf fenceOpen content = None" by (simp only: indexOf_None)
  then show ?thesis by (simp add: fenceInterior_def)
qed

lemma parseInlineStruct_no_documentation:
  "parseInlineStruct code = Inr (Some info) \<Longrightarrow> s_documentation info = None"
  by (auto simp: parseInlineStruct_def split: option.splits sum.splits)

text \<open>
  Claim C6, as the code has it. The struct patterns are searched in the interior of the
  first fenced region tagged \<^verbatim>\<open>go\<close> when the text has one, and in the whole text
  otherwise. When the full definition pattern matches there, the documentation of the
  descriptor is the trimmed text before the first three backticks of the text (the
  text preceding the fence, when the \<^verbatim>\<open>go\<close> fence is the first one), absent when that
  is empty or when the text holds no three backticks. When it does not match, the result
  is that of the inline pattern, whose descriptor never carries documentation. A text
  without three backticks is searched whole and gives no documentation.
\<close>

theorem hover_fence_and_documentation:
  assumes "code = (case fenceInterior content of None \<Rightarrow> content | Some inner \<Rightarrow> inner)"
  shows "codeContent content = Some code
    \<and> (rmatch structRe code \<noteq> None \<longrightarrow>
         (\<exists>info. parseStructFromHover content = Inr (Some info) \<and> s_documentation info = leadingText content))
    \<and> (rmatch structRe code = None \<longrightarrow>
         parseStructFromHover content = parseInlineStruct code \<and>
         (\<forall>info. parseInlineStruct code = Inr (Some info) \<longrightarrow> s_documentation info = None))
    \<and> (indexOf ticks content = None \<longrightarrow> code = content \<and> leadingText content = None)"
proof -
  have c: "codeContent content = Some code" using assms codeContent_eq by simp
  have a: "\<exists>info. parseStructFromHover content = Inr (Some info) \<and> s_documentation info = leadingText content"
    if "rmatch structRe code \<noteq> None"
  proof -
    from that obtain m where m: "rmatch structRe code = Some m" by blast
    from rmatch_groups [OF m must_others(2)] rmatch_groups [OF m must_others(3)]
    obtain g1 g2 where g: "m_groups m 1 = Some g1" "m_groups m 2 = Some g2" by auto
    obtain fs where fs: "parseFields g2 = Inr fs" using parseFields_eq by blast
    have "parseStructFromHover content =
      Inr (Some \<lparr>s_name = g1, s_fields = fs, s_documentation = leadingText content\<rparr>)"
      using c m g fs by (simp add: parseStructFromHover_def documentationOf_eq)
    then show ?thesis by simp
  qed
  have b: "parseStructFromHover content = parseInlineStruct code" if "rmatch structRe code = None"
    using that c by (simp add: parseStructFromHover_def)
  have d: "code = content \<and> leadingText content = None" if "indexOf ticks content = None"
    using that assms no_ticks_no_fence [OF that] by (simp add: leadingText_def)
  from c a b d parseInlineStruct_no_documentation show ?thesis by blast
qed

text \<open>The claim as stated fails on a fenced text whose interior only fits the inline
  pattern: the text before the fence is not taken as documentation.\<close>

theorem fenced_inline_struct_has_no_documentation:
  "fenceInterior ''Doc\<newline>```go\<newline>Person struct { Name string }\<newline>```'' = Some ''Person struct { Name string }''
   \<and> parseStructFromHover ''Doc\<newline>```go\<newline>Person struct { Name string }\<newline>```'' =
     Inr (Some \<lparr>s_name = ''Person'',
       s_fields = [\<lparr>f_name = ''Name'', f_type = ''string'', f_documentation = None, f_tag = None\<rparr>],
       s_documentation = None\<rparr>)"
  by code_simp

text \<open>It also fails on a text without a \<^verbatim>\<open>go\<close> fence that holds three backticks: the
  text before them is taken as documentation.\<close>

lemma unfenced_struct_takes_documentation:
  "fenceInterior ''Doc```type P struct {}'' = None
   \<and> parseStructFromHover ''Doc```type P struct {}'' =
     Inr (Some \<lparr>s_name = ''P'', s_fields = [], s_documentation = Some ''Doc''\<rparr>)"
  by code_simp

theorem hover_fence_and_documentation_witness:
  "fenceInterior hoverPerson = Some ''type Person struct {\<newline>Name string\<newline>}''
   \<and> codeContent hoverPerson = Some ''type Person struct {\<newline>Name string\<newline>}''
   \<and> rmatch structRe ''type Person struct {\<newline>Name string\<newline>}'' \<noteq> None
   \<and> leadingText hoverPerson = Some ''Person is a person.''
   \<and> (\<exists>info. parseStructFromHover hoverPerson = Inr (Some info) \<and> s_documentation info = Some ''Person is a person.'')
   \<and> fenceInterior ''Doc\<newline>```go\<newline>Person struct { Name string }\<newline>```'' = Some ''Person struct { Name string }''
   \<and> rmatch structRe ''Person struct { Name string }'' = None
   \<and> parseStructFromHover ''Doc\<newline>```go\<newline>Person struct { Name string }\<newline>```'' =
       parseInlineStruct ''Person struct { Name string }''
   \<and> indexOf ticks ''type P struct { A int }'' = None
   \<and> codeContent ''type P struct { A int }'' = Some ''type P struct { A int }''
   \<and> leadingText ''type P struct { A int }'' = None"
proof -
  have f1: "fenceInterior hoverPerson = Some ''type Person struct {\<newline>Name string\<newline>}''" by code_simp
  have r1: "rmatch structRe ''type Person struct {\<newline>Name string\<newline>}'' \<noteq> None" by code_simp
  have l1: "leadingText hoverPerson = Some ''Person is a person.''" by code_simp
  have f2: "fenceInterior ''Doc\<newline>```go\<newline>Person struct { Name string }\<newline>```'' = Some ''Person struct { Name string }''"
    by code_simp
  have r2: "rmatch structRe ''Person struct { Name string }'' = None" by code_simp
  have i3: "indexOf ticks ''type P struct { A int }'' = None" by code_simp
  have e1: "''type Person struct {\<newline>Name string\<newline>}'' =
    (case fenceInterior hoverPerson of None \<Rightarrow> hoverPerson | Some inner \<Rightarrow> inner)"
    by (simp only: f1 option.case)
  have e2: "''Person struct { Name string }'' =
    (case fenceInterior ''Doc\<newline>```go\<newline>Person struct { Name string }\<newline>```'' of
       None \<Rightarrow> ''Doc\<newline>```go\<newline>Person struct { Name string }\<newline>```'' | Some inner \<Rightarrow> inner)"
    by (simp only: f2 option.case)
  note t1 = hover_fence_and_documentation [OF e1]
  note t2 = hover_fence_and_documentation [OF e2]
  note t3 = hover_fence_and_documentation [OF refl, of "''type P struct { A int }''"]
  from t1 have c1: "codeContent hoverPerson = Some ''type Person struct {\<newline>Name string\<newline>}''" by (rule conjunct1)
  from t1 r1 l1 have d1: "\<exists>info. parseStructFromHover hoverPerson = Inr (Some info) \<and>
    s_documentation info = Some ''Person is a person.''" by (simp only:) blast
  from t2 r2 have d2: "parseStructFromHover ''Doc\<newline>```go\<newline>Person struct { Name string }\<newline>```'' =
       parseInlineStruct ''Person struct { Name string }''" by blast
  from t3 i3 have d3: "(case fenceInterior ''type P struct { A int }'' of None \<Rightarrow> ''type P struct { A int }'' | Some inner \<Rightarrow> inner)
      = ''type P struct { A int }'' \<and> leadingText ''type P struct { A int }'' = None" by blast
  from t3 d3 have c3: "codeContent ''type P struct { A int }'' = Some ''type P struct { A int }''"
    by (simp only:)
  from f1 c1 r1 l1 d1 f2 r2 d2 i3 c3 d3 show ?thesis by blast
qed

end
